theory Spec2Isabelle
  imports Main
begin

section \<open>Python strings\<close>

text \<open>
  A Python \<open>str\<close> is a sequence of Unicode code points and \<open>len\<close> counts code points.
  A character is modelled as its code point (a natural number), a string as the list of
  its code points; \<open>lit\<close> turns an ASCII literal of the source into such a list.
\<close>

type_synonym pychar = nat
type_synonym pystr = "pychar list"

definition lit :: "string \<Rightarrow> pystr" where
  "lit s = map of_char s"

text \<open>
  \<open>str.isspace\<close> on one character and \<open>str.strip()\<close> without argument use the same
  table of whitespace code points: TAB..CR, FS..US, SPACE, NEL, NBSP, U+1680,
  U+2000..U+200A, U+2028, U+2029, U+202F, U+205F and U+3000.
\<close>

definition isspace :: "pychar \<Rightarrow> bool" where
  "isspace c =
     ((9 \<le> c \<and> c \<le> 13) \<or> (28 \<le> c \<and> c \<le> 32) \<or> c = 133 \<or> c = 160 \<or> c = 5760
      \<or> (8192 \<le> c \<and> c \<le> 8202) \<or> c = 8232 \<or> c = 8233 \<or> c = 8239 \<or> c = 8287
      \<or> c = 12288)"

definition strip :: "pystr \<Rightarrow> pystr" where
  "strip s = rev (dropWhile isspace (rev (dropWhile isspace s)))"

text \<open>
  \<open>s[i:j]\<close> for a start \<open>i \<ge> 0\<close> and any integer \<open>j\<close>: a negative \<open>j\<close> counts from
  the end, and both ends are clamped to the string.
\<close>

definition py_slice :: "'a list \<Rightarrow> nat \<Rightarrow> int \<Rightarrow> 'a list" where
  "py_slice s i j =
     (let n = int (length s);
          e = (if j < 0 then max 0 (j + n) else min j n)
      in take (nat e - i) (drop i s))"

text \<open>\<open>s[i:]\<close> for any integer \<open>i\<close> (a negative \<open>i\<close> counts from the end).\<close>

definition py_from :: "'a list \<Rightarrow> int \<Rightarrow> 'a list" where
  "py_from s i = (if i < 0 then drop (nat (int (length s) + i)) s else drop (nat i) s)"

text \<open>\<open>sep.join(parts)\<close>.\<close>

fun join :: "pystr \<Rightarrow> pystr list \<Rightarrow> pystr" where
  "join sep [] = []"
| "join sep [x] = x"
| "join sep (x # y # ys) = x @ sep @ join sep (y # ys)"

text \<open>\<open>sub in s\<close> on strings.\<close>

fun contains :: "pystr \<Rightarrow> pystr \<Rightarrow> bool" where
  "contains sub [] = (sub = [])"
| "contains sub (c # s) = (take (length sub) (c # s) = sub \<or> contains sub s)"

definition startswith :: "pystr \<Rightarrow> pystr \<Rightarrow> bool" where
  "startswith s pre = (take (length pre) s = pre)"

definition endswith :: "pystr \<Rightarrow> pystr \<Rightarrow> bool" where
  "endswith s suf = (length suf \<le> length s \<and> drop (length s - length suf) s = suf)"

section \<open>The processor\<close>

text \<open>
  The fields of \<open>JSONChunkProcessor\<close> after construction. The sizes are Python integers.
  \<open>hierarchy_cache\<close> is a dictionary from ancestor titles to their stripped bodies.
\<close>

record processor =
  chunk_size :: int
  overlap_size :: int
  max_background_size :: int
  hierarchy_cache :: "pystr \<rightharpoonup> pystr"
  global_chunk_counter :: int

subsection \<open>split_content_with_overlap\<close>

text \<open>
  \<open>for i in range(hi, lo, -1): if P(i): ...; break\<close>: the first \<open>i\<close>, going down from
  \<open>hi\<close> to \<open>lo + 1\<close>, at which \<open>P\<close> holds.
\<close>

definition search_back :: "(int \<Rightarrow> bool) \<Rightarrow> int \<Rightarrow> int \<Rightarrow> int option" where
  "search_back P hi lo = find P (rev [lo + 1..hi])"

definition sentence_end_at :: "pystr \<Rightarrow> int \<Rightarrow> bool" where
  "sentence_end_at content i =
     (content ! nat i \<in> set (lit ''.!?'')
      \<and> (i + 1 \<ge> int (length content) \<or> isspace (content ! nat (i + 1))))"

text \<open>
  The four searches of the loop body, each run only while \<open>break_point\<close> still equals
  \<open>end\<close>. Every index read lies strictly between \<open>start\<close> and \<open>end < len(content)\<close>.
\<close>

definition find_break_point :: "pystr \<Rightarrow> nat \<Rightarrow> int \<Rightarrow> int" where
  "find_break_point content start end =
     (let bp1 = (case search_back (sentence_end_at content) (end - 1) (max (int start) (end - 200))
                 of Some i \<Rightarrow> i + 1 | None \<Rightarrow> end);
          bp2 = (if bp1 = end
                 then (case search_back (\<lambda>i. py_slice content (nat i) (i + 2) = [10, 10])
                              (end - 1) (max (int start) (end - 200))
                       of Some i \<Rightarrow> i + 2 | None \<Rightarrow> bp1)
                 else bp1);
          bp3 = (if bp2 = end
                 then (case search_back (\<lambda>i. content ! nat i = 10)
                              (end - 1) (max (int start) (end - 100))
                       of Some i \<Rightarrow> i + 1 | None \<Rightarrow> bp2)
                 else bp2);
          bp4 = (if bp3 = end
                 then (case search_back (\<lambda>i. isspace (content ! nat i))
                              (end - 1) (max (int start) (end - 50))
                       of Some i \<Rightarrow> i + 1 | None \<Rightarrow> bp3)
                 else bp3)
      in bp4)"

text \<open>The value of \<open>end\<close> when the chunk is extracted.\<close>

definition chunk_end :: "int \<Rightarrow> pystr \<Rightarrow> nat \<Rightarrow> int" where
  "chunk_end available_chars content start =
     (let end = int start + available_chars
      in if end < int (length content) then find_break_point content start end else end)"

text \<open>\<open>max(start + 1, end - self.overlap_size)\<close>, which is positive.\<close>

definition next_start :: "int \<Rightarrow> nat \<Rightarrow> int \<Rightarrow> nat" where
  "next_start ov start end = nat (max (int start + 1) (end - ov))"

text \<open>
  The \<open>while\<close> loop. \<open>start\<close> begins at 0 and only grows, so it is a natural number;
  \<open>end\<close> is an integer (it is negative when \<open>available_chars\<close> is).
\<close>

function split_loop :: "int \<Rightarrow> int \<Rightarrow> pystr \<Rightarrow> nat \<Rightarrow> pystr list \<Rightarrow> pystr list" where
  "split_loop available_chars ov content start chunks =
     (if start < length content then
        (let end = chunk_end available_chars content start;
             chunk = strip (py_slice content start end);
             chunks' = (if chunk \<noteq> [] then chunks @ [chunk] else chunks)
         in if end \<ge> int (length content) then chunks'
            else split_loop available_chars ov content (next_start ov start end) chunks')
      else chunks)"
  by pat_completeness auto
termination
  by (relation "measure (\<lambda>(a, ov, content, start, chunks). length content - start)")
     (auto simp: next_start_def)

declare split_loop.simps [simp del]

definition split_content_with_overlap :: "processor \<Rightarrow> pystr \<Rightarrow> int \<Rightarrow> pystr list" where
  "split_content_with_overlap p content available_chars =
     (if int (length content) \<le> available_chars then [content]
      else split_loop available_chars (overlap_size p) content 0 [])"

subsection \<open>Entries and chunks\<close>

text \<open>
  An entry of the input JSON: \<open>content\<close> (the field \<open>entry_content\<close>) and, under \<open>metadata\<close>, the keys the processor
  reads. \<open>title\<close> and \<open>full_path\<close> are read with \<open>.get\<close> and may be missing;
  a missing \<open>hierarchy\<close> reads as the empty list. (\<open>level\<close> is read and never used.)
\<close>

record entry =
  entry_content :: pystr
  title :: "pystr option"
  hierarchy :: "pystr list"
  full_path :: "pystr option"

record chunk_metadata =
  chunk_id :: pystr
  source_file :: pystr
  md_full_path :: pystr
  md_chunk_size :: nat
  background_size :: nat
  content_size :: nat

record chunk =
  chunk_content :: pystr
  metadata :: chunk_metadata

subsection \<open>generate_chunk_id\<close>

text \<open>The decimal digits of a natural number, as \<open>str(n)\<close> gives them.\<close>

fun digits :: "nat \<Rightarrow> pystr" where
  "digits n = (if n < 10 then [48 + n] else digits (n div 10) @ [48 + n mod 10])"

declare digits.simps [simp del]

text \<open>
  The format \<open>{n:06d}\<close>: zero-padded to six characters, the sign included; longer
  numbers are written in full.
\<close>

definition format_06d :: "int \<Rightarrow> pystr" where
  "format_06d n =
     (let s = digits (nat \<bar>n\<bar>)
      in if n < 0 then 45 # replicate (5 - length s) 48 @ s
         else replicate (6 - length s) 48 @ s)"

text \<open>
  \<open>str.isalnum\<close> (a table of the Unicode database) and \<open>Path(...).stem\<close> belong to the
  Python library: they are parameters \<open>isalnum\<close> and \<open>stem\<close> of the model.
\<close>

definition generate_chunk_id ::
  "(pychar \<Rightarrow> bool) \<Rightarrow> (pystr \<Rightarrow> pystr) \<Rightarrow> processor \<Rightarrow> pystr \<Rightarrow> pystr \<Rightarrow> nat
   \<Rightarrow> pystr \<times> processor" where
  "generate_chunk_id isalnum stem p source_filename entry_title chunk_index =
     (let p' = p\<lparr>global_chunk_counter := global_chunk_counter p + 1\<rparr>;
          clean_filename = stem source_filename;
          clean_title = strip (filter (\<lambda>c. isalnum c \<or> c \<in> set (lit '' -_'')) entry_title);
          clean_title' = take 30 (map (\<lambda>c. if c = 32 then 95 else c) clean_title)
      in (lit ''chunk_'' @ format_06d (global_chunk_counter p') @ lit ''_'' @ clean_filename
            @ lit ''_'' @ clean_title' @ lit ''_'' @ digits chunk_index,
          p'))"

subsection \<open>build_hierarchical_background\<close>

text \<open>
  The loop over \<open>hierarchy\<close>: a cached title gives its cached body; otherwise the first
  entry with that title gives its stripped body, which is cached; a title that no entry
  has adds nothing.
\<close>

fun collect_background_parts ::
  "entry list \<Rightarrow> pystr list \<Rightarrow> (pystr \<rightharpoonup> pystr) \<Rightarrow> pystr list
   \<Rightarrow> pystr list \<times> (pystr \<rightharpoonup> pystr)" where
  "collect_background_parts all_entries [] cache background_parts = (background_parts, cache)"
| "collect_background_parts all_entries (hierarchy_title # rest) cache background_parts =
     (case cache hierarchy_title of
        Some cached \<Rightarrow>
          collect_background_parts all_entries rest cache (background_parts @ [cached])
      | None \<Rightarrow>
          (case find (\<lambda>other_entry. title other_entry = Some hierarchy_title) all_entries of
             Some other_entry \<Rightarrow>
               (let c = strip (entry_content other_entry)
                in collect_background_parts all_entries rest (cache(hierarchy_title \<mapsto> c))
                     (background_parts @ [c]))
           | None \<Rightarrow> collect_background_parts all_entries rest cache background_parts))"

definition build_hierarchical_background ::
  "processor \<Rightarrow> entry \<Rightarrow> entry list \<Rightarrow> (pystr \<times> bool) \<times> processor" where
  "build_hierarchical_background p e all_entries =
     (let (background_parts, cache') =
            collect_background_parts all_entries (hierarchy e) (hierarchy_cache p) [];
          p' = p\<lparr>hierarchy_cache := cache'\<rparr>;
          raw_background = join (lit ''\<newline>\<newline>'') background_parts
      in if raw_background = [] then (([], False), p')
         else if int (length raw_background) > max_background_size p then
           (let truncation_point =
                  int (length raw_background) - max_background_size p
                    + int (length (lit ''[TRUNCATED] ''));
                raw_background' = lit ''[TRUNCATED] '' @ py_from raw_background truncation_point
            in ((lit ''[BACKGROUND]\<newline>'' @ raw_background' @ lit ''\<newline>[/BACKGROUND]'', True),
                p'))
         else ((lit ''[BACKGROUND]\<newline>'' @ raw_background @ lit ''\<newline>[/BACKGROUND]'', False),
               p'))"

subsection \<open>create_chunks_from_entry\<close>

text \<open>
  The reduction of a background that leaves less than the minimum content size, for a
  positive \<open>max_allowed_background\<close> (the body of \<open>if max_allowed_background > 0\<close>).
\<close>

definition reduce_background :: "int \<Rightarrow> pystr \<Rightarrow> pystr" where
  "reduce_background max_allowed_background background =
     (if startswith background (lit ''[BACKGROUND]\<newline>'')
         \<and> endswith background (lit ''\<newline>[/BACKGROUND]'')
      then
        (let inner_content = py_slice background 13 (- 14)
         in if contains (lit ''[TRUNCATED] '') inner_content then
              (let truncated_inner = drop 12 inner_content;
                   new_size = max_allowed_background - 30
               in if new_size > 0 then
                    lit ''[BACKGROUND]\<newline>[TRUNCATED] '' @ py_from truncated_inner (- new_size)
                      @ lit ''\<newline>[/BACKGROUND]''
                  else background)
            else
              (let new_size = max_allowed_background - 28
               in if new_size > 0 then
                    lit ''[BACKGROUND]\<newline>[TRUNCATED] '' @ py_from inner_content (- new_size)
                      @ lit ''\<newline>[/BACKGROUND]''
                  else []))
      else background)"

text \<open>
  The budget computation of \<open>create_chunks_from_entry\<close>, from
  \<open>background_length = len(background)\<close> to the final \<open>available_chars\<close>. It returns
  \<open>(background, background_length, was_truncated, available_chars)\<close>.
\<close>

definition allocate_budget :: "processor \<Rightarrow> pystr \<Rightarrow> bool \<Rightarrow> pystr \<times> nat \<times> bool \<times> int" where
  "allocate_budget p background was_truncated =
     (let background_length = length background;
          available_chars = chunk_size p - int background_length;
          min_content_size = 100
      in if available_chars < min_content_size then
           (let (background', background_length', was_truncated') =
                  (if background_length > 0 then
                     (let max_allowed_background = chunk_size p - min_content_size
                      in if max_allowed_background > 0 then
                           (let b = reduce_background max_allowed_background background
                            in (b, length b, True))
                         else ([], 0, was_truncated))
                   else (background, background_length, was_truncated));
                available_chars' = max (chunk_size p - int background_length') min_content_size
            in (background', background_length', was_truncated', available_chars'))
         else (background, background_length, was_truncated, available_chars))"

text \<open>The loop \<open>for i, content_chunk in enumerate(content_chunks)\<close>, from index \<open>i\<close> on.\<close>

fun assemble_chunks ::
  "(pychar \<Rightarrow> bool) \<Rightarrow> (pystr \<Rightarrow> pystr) \<Rightarrow> processor \<Rightarrow> pystr \<Rightarrow> nat \<Rightarrow> pystr \<Rightarrow> pystr
   \<Rightarrow> pystr \<Rightarrow> nat \<Rightarrow> pystr list \<Rightarrow> chunk list \<times> processor" where
  "assemble_chunks isalnum stem p background background_length source_filename current_title
     path i [] = ([], p)"
| "assemble_chunks isalnum stem p background background_length source_filename current_title
     path i (content_chunk # rest) =
     (let full_content =
            (if background \<noteq> [] then background @ lit ''\<newline>\<newline>'' @ content_chunk
             else content_chunk);
          (cid, p') = generate_chunk_id isalnum stem p source_filename current_title i;
          c = \<lparr>chunk_content = full_content,
               metadata = \<lparr>chunk_id = cid, source_file = source_filename, md_full_path = path,
                            md_chunk_size = length full_content,
                            background_size = background_length,
                            content_size = length content_chunk\<rparr>\<rparr>;
          (cs, p'') = assemble_chunks isalnum stem p' background background_length
                        source_filename current_title path (i + 1) rest
      in (c # cs, p''))"

definition create_chunks_from_entry ::
  "(pychar \<Rightarrow> bool) \<Rightarrow> (pystr \<Rightarrow> pystr) \<Rightarrow> processor \<Rightarrow> entry \<Rightarrow> entry list \<Rightarrow> pystr
   \<Rightarrow> chunk list \<times> processor" where
  "create_chunks_from_entry isalnum stem p e all_entries source_filename =
     (let ((background, was_truncated), p') = build_hierarchical_background p e all_entries;
          (background', background_length, was_truncated', available_chars) =
            allocate_budget p' background was_truncated;
          content_chunks = split_content_with_overlap p' (entry_content e) available_chars;
          current_title = (case title e of Some t \<Rightarrow> t | None \<Rightarrow> lit ''Unknown'');
          path = (case full_path e of Some f \<Rightarrow> f | None \<Rightarrow> current_title)
      in assemble_chunks isalnum stem p' background' background_length source_filename
           current_title path 0 content_chunks)"

subsection \<open>process_json_file\<close>

text \<open>The loop over the entries of one file; \<open>all_chunks\<close> is extended in input order.\<close>

fun process_entries ::
  "(pychar \<Rightarrow> bool) \<Rightarrow> (pystr \<Rightarrow> pystr) \<Rightarrow> processor \<Rightarrow> entry list \<Rightarrow> pystr \<Rightarrow> entry list
   \<Rightarrow> chunk list \<times> processor" where
  "process_entries isalnum stem p entries source_filename [] = ([], p)"
| "process_entries isalnum stem p entries source_filename (e # rest) =
     (let (chunks, p') = create_chunks_from_entry isalnum stem p e entries source_filename;
          (all_chunks, p'') = process_entries isalnum stem p' entries source_filename rest
      in (chunks @ all_chunks, p''))"

text \<open>
  \<open>process_json_file\<close> on the loaded \<open>entries\<close> of a file whose base name is
  \<open>source_filename\<close>: the hierarchy cache is reset, the counter is kept. The result is
  the list written to the output file.
\<close>

definition process_json_file ::
  "(pychar \<Rightarrow> bool) \<Rightarrow> (pystr \<Rightarrow> pystr) \<Rightarrow> processor \<Rightarrow> pystr \<Rightarrow> entry list
   \<Rightarrow> chunk list \<times> processor" where
  "process_json_file isalnum stem p source_filename entries =
     process_entries isalnum stem (p\<lparr>hierarchy_cache := Map.empty\<rparr>) entries source_filename
       entries"

text \<open>
  A run: one processor, any sequence of files, each given by its base name and its
  entries. The chunks of all files are listed in the order they are produced.
\<close>

fun process_all_json_files ::
  "(pychar \<Rightarrow> bool) \<Rightarrow> (pystr \<Rightarrow> pystr) \<Rightarrow> processor \<Rightarrow> (pystr \<times> entry list) list
   \<Rightarrow> chunk list \<times> processor" where
  "process_all_json_files isalnum stem p [] = ([], p)"
| "process_all_json_files isalnum stem p ((source_filename, entries) # files) =
     (let (chunks, p') = process_json_file isalnum stem p source_filename entries;
          (more, p'') = process_all_json_files isalnum stem p' files
      in (chunks @ more, p''))"

subsection \<open>The iterations of the splitting loop\<close>

text \<open>
  The pairs \<open>(start, end)\<close> of the iterations of the \<open>while\<close> loop, in order: the same
  recursion as \<open>split_loop\<close>, recording the slice bounds instead of the chunks.
\<close>

function split_ranges :: "int \<Rightarrow> int \<Rightarrow> pystr \<Rightarrow> nat \<Rightarrow> (nat \<times> int) list" where
  "split_ranges available_chars ov content start =
     (if start < length content then
        (let end = chunk_end available_chars content start
         in (start, end) #
            (if end \<ge> int (length content) then []
             else split_ranges available_chars ov content (next_start ov start end)))
      else [])"
  by pat_completeness auto
termination
  by (relation "measure (\<lambda>(a, ov, content, start). length content - start)")
     (auto simp: next_start_def)

declare split_ranges.simps [simp del]

text \<open>The chunks that a list of iterations appends: stripped slices, the empty ones left out.\<close>

definition segments_of :: "pystr \<Rightarrow> (nat \<times> int) list \<Rightarrow> pystr list" where
  "segments_of content rs =
     filter (\<lambda>chunk. chunk \<noteq> []) (map (\<lambda>(start, end). strip (py_slice content start end)) rs)"

text \<open>
  The untrimmed slices \<open>content[start:end]\<close> of a list of iterations, each but the last
  without the characters it shares with the next one: the next iteration starts at
  \<open>next_start\<close>, so the slice \<open>[start, end)\<close> shares its last \<open>end - next_start\<close>
  characters with it.
\<close>

fun remove_overlaps :: "int \<Rightarrow> pystr \<Rightarrow> (nat \<times> int) list \<Rightarrow> pystr list" where
  "remove_overlaps ov content [] = []"
| "remove_overlaps ov content [(start, end)] = [py_slice content start end]"
| "remove_overlaps ov content ((start, end) # r # rs) =
     (let slice = py_slice content start end
      in take (length slice - nat (end - int (next_start ov start end))) slice)
     # remove_overlaps ov content (r # rs)"

text \<open>
  The reconstruction in the words of the specification: every segment but the last
  loses its trailing \<open>overlapSize\<close> characters.
\<close>

fun spec_remove_overlap :: "nat \<Rightarrow> pystr list \<Rightarrow> pystr list" where
  "spec_remove_overlap overlapSize [] = []"
| "spec_remove_overlap overlapSize [s] = [s]"
| "spec_remove_overlap overlapSize (s # t # ts) =
     take (length s - overlapSize) s # spec_remove_overlap overlapSize (t # ts)"

text \<open>A string without its whitespace characters.\<close>

definition remove_whitespace :: "pystr \<Rightarrow> pystr" where
  "remove_whitespace s = filter (\<lambda>c. \<not> isspace c) s"

subsection \<open>Reading the counter back from a chunk id\<close>

definition is_digit :: "pychar \<Rightarrow> bool" where
  "is_digit c = (48 \<le> c \<and> c \<le> 57)"

text \<open>The number that a string of decimal digits denotes.\<close>

definition digits_val :: "pystr \<Rightarrow> nat" where
  "digits_val s = foldl (\<lambda>a c. 10 * a + (c - 48)) 0 s"

text \<open>
  The digits that follow the six characters \<open>chunk_\<close> of a chunk id, as a number:
  for an id made by \<open>generate_chunk_id\<close> this is the counter it was made with.
\<close>

definition id_counter :: "pystr \<Rightarrow> nat" where
  "id_counter cid = digits_val (takeWhile is_digit (drop 6 cid))"

text \<open>The chunks of a list carry the counters \<open>c + 1, c + 2, ...\<close>, in this order.\<close>

definition numbered_from :: "int \<Rightarrow> chunk list \<Rightarrow> bool" where
  "numbered_from c chunks =
     (map (\<lambda>ch. int (id_counter (chunk_id (metadata ch)))) chunks
        = [c + 1..c + int (length chunks)])"

subsection \<open>Intermediate values of build_hierarchical_background and create_chunks_from_entry\<close>

text \<open>\<open>raw_background\<close> as first computed: the collected ancestor bodies, joined.\<close>

definition joined_background :: "processor \<Rightarrow> entry \<Rightarrow> entry list \<Rightarrow> pystr" where
  "joined_background p e all_entries =
     join (lit ''\<newline>\<newline>'')
       (fst (collect_background_parts all_entries (hierarchy e) (hierarchy_cache p) []))"

text \<open>An ancestor title is resolvable when it is cached or some entry has it as its title.\<close>

definition resolvable :: "entry list \<Rightarrow> (pystr \<rightharpoonup> pystr) \<Rightarrow> pystr \<Rightarrow> bool" where
  "resolvable all_entries cache hierarchy_title =
     (case cache hierarchy_title of
        Some cached \<Rightarrow> True
      | None \<Rightarrow>
          (case find (\<lambda>other_entry. title other_entry = Some hierarchy_title) all_entries of
             Some other_entry \<Rightarrow> True
           | None \<Rightarrow> False))"

text \<open>
  In \<open>create_chunks_from_entry\<close>: the background that is prepended to the chunks, the
  final \<open>available_chars\<close>, and \<open>content_chunks\<close>.
\<close>

definition entry_background :: "processor \<Rightarrow> entry \<Rightarrow> entry list \<Rightarrow> pystr" where
  "entry_background p e all_entries =
     (let ((background, was_truncated), p') = build_hierarchical_background p e all_entries;
          (background', background_length, was_truncated', available_chars) =
            allocate_budget p' background was_truncated
      in background')"

definition entry_available_chars :: "processor \<Rightarrow> entry \<Rightarrow> entry list \<Rightarrow> int" where
  "entry_available_chars p e all_entries =
     (let ((background, was_truncated), p') = build_hierarchical_background p e all_entries;
          (background', background_length, was_truncated', available_chars) =
            allocate_budget p' background was_truncated
      in available_chars)"

definition entry_segments :: "processor \<Rightarrow> entry \<Rightarrow> entry list \<Rightarrow> pystr list" where
  "entry_segments p e all_entries =
     (let ((background, was_truncated), p') = build_hierarchical_background p e all_entries
      in split_content_with_overlap p' (entry_content e) (entry_available_chars p e all_entries))"

section \<open>Example inputs\<close>

definition example_processor :: processor where
  "example_processor =
     \<lparr>chunk_size = 7, overlap_size = 2, max_background_size = 2,
      hierarchy_cache = Map.empty, global_chunk_counter = 0\<rparr>"

text \<open>Stand-ins for the two library functions: ASCII letters and digits, the name up to its first dot.\<close>

definition example_isalnum :: "pychar \<Rightarrow> bool" where
  "example_isalnum c = ((48 \<le> c \<and> c \<le> 57) \<or> (65 \<le> c \<and> c \<le> 90) \<or> (97 \<le> c \<and> c \<le> 122))"

definition example_stem :: "pystr \<Rightarrow> pystr" where
  "example_stem s = takeWhile (\<lambda>c. c \<noteq> 46) s"

text \<open>
  A processor with a chunk size of 200, no overlap and at most 80 characters of
  background; a document of a section \<open>A\<close> of 100 characters and its subsection \<open>B\<close>
  of 150 characters, whose hierarchy also names a section \<open>Z\<close> that does not exist.
\<close>

definition processor_200 :: processor where
  "processor_200 =
     \<lparr>chunk_size = 200, overlap_size = 0, max_background_size = 80,
      hierarchy_cache = Map.empty, global_chunk_counter = 0\<rparr>"

definition entry_A :: entry where
  "entry_A = \<lparr>entry_content = replicate 100 98, title = Some (lit ''A''), hierarchy = [],
              full_path = Some (lit ''A'')\<rparr>"

definition entry_B :: entry where
  "entry_B = \<lparr>entry_content = replicate 98 97 @ lit ''. '' @ replicate 50 97,
              title = Some (lit ''B''), hierarchy = [lit ''Z'', lit ''A''],
              full_path = Some (lit ''A > B'')\<rparr>"

text \<open>
  A heading \<open>H\<close> with a blank body and a section \<open>C\<close> under it: the one ancestor of
  \<open>C\<close> resolves, to an empty text.
\<close>

definition entry_H :: entry where
  "entry_H = \<lparr>entry_content = lit '' '', title = Some (lit ''H''), hierarchy = [],
              full_path = Some (lit ''H'')\<rparr>"

definition entry_C :: entry where
  "entry_C = \<lparr>entry_content = lit ''text'', title = Some (lit ''C''), hierarchy = [lit ''H''],
              full_path = Some (lit ''H > C'')\<rparr>"

section \<open>The splitter on content that fits\<close>

text \<open>
  C4 (as the code has it): for every content whose length is at most \<open>available_chars\<close>,
  \<open>split_content_with_overlap\<close> returns exactly one segment, and that segment is the
  input content itself, unchanged: it is not trimmed.
\<close>

theorem split_fits_unchanged:
  "int (length content) \<le> available_chars \<Longrightarrow>
   split_content_with_overlap p content available_chars = [content]"
  by (simp add: split_content_with_overlap_def)

theorem split_fits_unchanged_witness:
  "int (length (lit ''abc'')) \<le> 5 \<and>
   split_content_with_overlap example_processor (lit ''abc'') 5 = [lit ''abc'']"
  using split_fits_unchanged [of "lit ''abc''" 5 example_processor]
  by (simp add: lit_def)

text \<open>
  C4 as stated fails: the content \<open>" a"\<close> fits in 5 characters and is returned with its
  leading blank, which is not the trimmed content \<open>"a"\<close>.
\<close>

theorem split_fits_trimmed_counterexample:
  "int (length (lit '' a'')) \<le> 5 \<and>
   split_content_with_overlap example_processor (lit '' a'') 5 \<noteq> [strip (lit '' a'')]"
  by (simp add: split_content_with_overlap_def lit_def strip_def isspace_def)

section \<open>The splitting loop\<close>

lemma search_back_SomeD:
  assumes "search_back P hi lo = Some i"
  shows "lo < i" "i \<le> hi" "P i"
proof -
  from assms obtain k where "k < length (rev [lo + 1..hi])" "i = rev [lo + 1..hi] ! k" "P i"
    unfolding search_back_def by (auto simp: find_Some_iff)
  then have "i \<in> set (rev [lo + 1..hi])" "P i"
    using nth_mem by blast+
  then show "lo < i" "i \<le> hi" "P i" by auto
qed

lemma search_back_Some:
  "search_back P hi lo = Some i \<Longrightarrow> lo < i \<and> i \<le> hi \<and> P i"
  using search_back_SomeD [of P hi lo i] by simp

lemma find_break_point_bounds:
  assumes "int start < end"
  shows "int start < find_break_point content start end"
    and "find_break_point content start end \<le> end + 1"
  using assms unfolding find_break_point_def Let_def
  by (auto split: option.splits dest!: search_back_Some)

lemma chunk_end_gt_start:
  assumes "0 < av"
  shows "int start < chunk_end av content start"
  using assms find_break_point_bounds(1) [of start "int start + av" content]
  by (simp add: chunk_end_def Let_def)

lemma chunk_end_le:
  assumes "0 < av"
  shows "chunk_end av content start \<le> int start + av + 1"
  using assms find_break_point_bounds(2) [of start "int start + av" content]
  by (simp add: chunk_end_def Let_def)

lemma split_loop_ranges:
  "split_loop av ov content start chunks
     = chunks @ segments_of content (split_ranges av ov content start)"
proof (induction av ov content start chunks rule: split_loop.induct)
  case (1 av ov content start chunks)
  show ?case
  proof (cases "start < length content")
    case False
    then show ?thesis
      by (simp add: split_loop.simps [of av ov content start]
          split_ranges.simps [of av ov content start] segments_of_def)
  next
    case True
    let ?e = "chunk_end av content start"
    show ?thesis
    proof (cases "?e \<ge> int (length content)")
      case True
      with \<open>start < length content\<close> show ?thesis
        by (simp add: split_loop.simps [of av ov content start]
            split_ranges.simps [of av ov content start] segments_of_def)
    next
      case False
      with \<open>start < length content\<close> "1.IH" [OF \<open>start < length content\<close> refl refl refl]
      show ?thesis
        by (simp add: split_loop.simps [of av ov content start]
            split_ranges.simps [of av ov content start] segments_of_def Let_def)
    qed
  qed
qed

lemma next_start_gt: "start < next_start ov start e"
  by (simp add: next_start_def)

lemma split_ranges_fst_ge:
  "(s, e) \<in> set (split_ranges av ov content start) \<Longrightarrow> start \<le> s"
proof (induction av ov content start rule: split_ranges.induct)
  case (1 av ov content start)
  show ?case
  proof (cases "start < length content \<and> \<not> chunk_end av content start \<ge> int (length content)")
    case True
    with "1.prems" have "s = start \<or> (s, e) \<in> set (split_ranges av ov content (next_start ov start (chunk_end av content start)))"
      by (subst (asm) split_ranges.simps) (auto simp: Let_def)
    then show ?thesis
    proof
      assume "s = start" then show ?thesis by simp
    next
      assume "(s, e) \<in> set (split_ranges av ov content (next_start ov start (chunk_end av content start)))"
      with "1.IH" [OF _ refl] True have "next_start ov start (chunk_end av content start) \<le> s"
        by simp
      with next_start_gt [of start ov "chunk_end av content start"] show ?thesis by simp
    qed
  next
    case False
    with "1.prems" show ?thesis
      by (subst (asm) split_ranges.simps) (auto simp: Let_def split: if_splits)
  qed
qed

lemma split_ranges_length:
  "length (split_ranges av ov content start) \<le> length content - start"
proof (induction av ov content start rule: split_ranges.induct)
  case (1 av ov content start)
  show ?case
  proof (cases "start < length content \<and> \<not> chunk_end av content start \<ge> int (length content)")
    case True
    with "1.IH" [OF _ refl] have "length (split_ranges av ov content (next_start ov start (chunk_end av content start)))
        \<le> length content - next_start ov start (chunk_end av content start)"
      by simp
    with True next_start_gt [of start ov "chunk_end av content start"] show ?thesis
      by (subst split_ranges.simps) (auto simp: Let_def)
  next
    case False
    then show ?thesis
      by (subst split_ranges.simps) (auto simp: Let_def)
  qed
qed

lemma split_ranges_starts_increase:
  "sorted_wrt (<) (map fst (split_ranges av ov content start))"
proof (induction av ov content start rule: split_ranges.induct)
  case (1 av ov content start)
  show ?case
  proof (cases "start < length content \<and> \<not> chunk_end av content start \<ge> int (length content)")
    case True
    let ?n = "next_start ov start (chunk_end av content start)"
    from True "1.IH" [OF _ refl] have "sorted_wrt (<) (map fst (split_ranges av ov content ?n))"
      by simp
    moreover have "\<forall>x \<in> set (split_ranges av ov content ?n). start < fst x"
      using split_ranges_fst_ge [of _ _ av ov content ?n] next_start_gt [of start ov "chunk_end av content start"]
      by fastforce
    ultimately show ?thesis using True
      by (subst split_ranges.simps) (simp add: Let_def)
  next
    case False
    then show ?thesis
      by (subst split_ranges.simps) (auto simp: Let_def)
  qed
qed

text \<open>
  C7: the loop of \<open>split_content_with_overlap\<close> terminates for every content, every
  \<open>available_chars\<close> and every \<open>overlap_size\<close>. \<open>split_loop\<close> is a total function
  (its termination proof uses that the next start, \<open>max(start + 1, end - overlap_size)\<close>,
  exceeds \<open>start\<close>); its result is built from the iterations \<open>split_ranges\<close>, of which
  there are at most \<open>len(content)\<close>, with strictly increasing starts.
\<close>

theorem split_loop_iterations:
  "split_loop av ov content 0 [] = segments_of content (split_ranges av ov content 0)
   \<and> length (split_ranges av ov content 0) \<le> length content
   \<and> sorted_wrt (<) (map fst (split_ranges av ov content 0))"
  using split_loop_ranges [of av ov content 0 "[]"] split_ranges_length [of av ov content 0]
    split_ranges_starts_increase [of av ov content 0]
  by simp

theorem split_loop_iterations_witness:
  "split_loop 7 2 (lit ''aaaa bbbb cccc'') 0 []
     = segments_of (lit ''aaaa bbbb cccc'') (split_ranges 7 2 (lit ''aaaa bbbb cccc'') 0)
   \<and> length (split_ranges 7 2 (lit ''aaaa bbbb cccc'') 0) \<le> length (lit ''aaaa bbbb cccc'')
   \<and> sorted_wrt (<) (map fst (split_ranges 7 2 (lit ''aaaa bbbb cccc'') 0))"
  using split_loop_iterations [of 7 2 "lit ''aaaa bbbb cccc''"] by simp

section \<open>Trimming\<close>

lemma strip_length_le: "length (strip s) \<le> length s"
proof -
  have "length (strip s) \<le> length (dropWhile isspace s)"
    unfolding strip_def using length_dropWhile_le [of isspace "rev (dropWhile isspace s)"]
    by simp
  also have "\<dots> \<le> length s" by (rule length_dropWhile_le)
  finally show ?thesis .
qed

lemma strip_eq_Nil_iff: "strip s = [] \<longleftrightarrow> (\<forall>c \<in> set s. isspace c)"
proof
  assume "strip s = []"
  then have a: "\<forall>c \<in> set (dropWhile isspace s). isspace c"
    by (simp add: strip_def dropWhile_eq_Nil_conv)
  show "\<forall>c \<in> set s. isspace c"
  proof (cases "dropWhile isspace s")
    case Nil
    then show ?thesis by (simp add: dropWhile_eq_Nil_conv)
  next
    case (Cons x xs)
    then have "\<not> isspace x" using hd_dropWhile [of isspace s] by force
    with a Cons show ?thesis by simp
  qed
next
  assume "\<forall>c \<in> set s. isspace c"
  then have "dropWhile isspace s = []" by simp
  then show "strip s = []" unfolding strip_def by (simp del: dropWhile_eq_Nil_conv)
qed

lemma strip_idem: "strip (strip s) = strip s"
proof (cases "strip s = []")
  case True
  have "strip [] = []" by (simp add: strip_def)
  with True show ?thesis by simp
next
  case False
  define t where "t = dropWhile isspace s"
  define u where "u = dropWhile isspace (rev t)"
  have su: "strip s = rev u" by (simp add: strip_def t_def u_def)
  with False have "u \<noteq> []" by simp
  then have "t \<noteq> []" by (auto simp: u_def)
  then have ht: "\<not> isspace (hd t)" unfolding t_def by (rule hd_dropWhile)
  have "\<exists>vs. rev t = vs @ u" unfolding u_def
    by (metis takeWhile_dropWhile_id)
  then obtain vs where "rev t = vs @ u" ..
  then have "t = rev u @ rev vs" by (metis rev_append rev_rev_ident)
  with \<open>u \<noteq> []\<close> have "hd (rev u) = hd t" by simp
  with ht have "\<not> isspace (hd (rev u))" by simp
  with \<open>u \<noteq> []\<close> have d1: "dropWhile isspace (rev u) = rev u"
    by (cases "rev u") auto
  have "dropWhile isspace u = u" unfolding u_def by (rule dropWhile_idem)
  with d1 su show ?thesis by (simp add: strip_def)
qed

lemma strip_slice_nonspace:
  assumes "start \<le> k" "int k < e" "k < length content" "\<not> isspace (content ! k)"
  shows "strip (py_slice content start e) \<noteq> []"
proof -
  have "content ! k \<in> set (py_slice content start e)"
  proof -
    have "py_slice content start e = take (nat (min e (int (length content))) - start) (drop start content)"
      using assms by (simp add: py_slice_def Let_def)
    moreover have "k - start < nat (min e (int (length content))) - start" using assms by auto
    moreover have "(take (nat (min e (int (length content))) - start) (drop start content)) ! (k - start) = content ! k"
      using assms by auto
    moreover have "k - start < length (take (nat (min e (int (length content))) - start) (drop start content))"
      using assms by auto
    ultimately show ?thesis by (metis nth_mem)
  qed
  with assms(4) show ?thesis by (auto simp: strip_eq_Nil_iff)
qed

section \<open>Coverage of the content by the slices\<close>

lemma next_start_le_end:
  assumes "0 \<le> ov" "int start < e"
  shows "int (next_start ov start e) \<le> e"
  using assms by (simp add: next_start_def)

lemma py_slice_to_end:
  assumes "int (length content) \<le> e"
  shows "py_slice content start e = drop start content"
  using assms by (simp add: py_slice_def Let_def)

lemma py_slice_inside:
  assumes "0 \<le> e" "e \<le> int (length content)"
  shows "py_slice content start e = take (nat e - start) (drop start content)"
  using assms by (simp add: py_slice_def Let_def)

lemma split_ranges_nonempty:
  "start < length content \<Longrightarrow> split_ranges av ov content start \<noteq> []"
  by (subst split_ranges.simps) (simp add: Let_def)

lemma remove_overlaps_Cons:
  assumes "rs \<noteq> []"
  shows "remove_overlaps ov content ((start, e) # rs) =
    (let slice = py_slice content start e
     in take (length slice - nat (e - int (next_start ov start e))) slice)
    # remove_overlaps ov content rs"
  using assms by (cases rs) auto

lemma remove_overlaps_ranges:
  assumes "0 < av" "0 \<le> ov" "start \<le> length content"
  shows "concat (remove_overlaps ov content (split_ranges av ov content start)) = drop start content"
  using assms
proof (induction av ov content start rule: split_ranges.induct)
  case (1 av ov content start)
  let ?e = "chunk_end av content start"
  let ?n = "next_start ov start ?e"
  have e: "int start < ?e" using "1.prems"(1) by (rule chunk_end_gt_start)
  show ?case
  proof (cases "start < length content")
    case False
    with "1.prems" show ?thesis
      by (subst split_ranges.simps) simp
  next
    case True
    show ?thesis
    proof (cases "?e \<ge> int (length content)")
      case True
      with \<open>start < length content\<close> have "split_ranges av ov content start = [(start, ?e)]"
        by (subst split_ranges.simps) (simp add: Let_def)
      with True show ?thesis by (simp add: py_slice_to_end)
    next
      case False
      have n: "start < ?n" "int ?n \<le> ?e"
        using next_start_gt [of start ov ?e] next_start_le_end [OF "1.prems"(2) e] by auto
      with False have nl: "?n < length content" by simp
      from \<open>start < length content\<close> False
      have sr: "split_ranges av ov content start = (start, ?e) # split_ranges av ov content ?n"
        by (subst split_ranges.simps) (simp add: Let_def)
      have IH: "concat (remove_overlaps ov content (split_ranges av ov content ?n)) = drop ?n content"
        using "1.IH" [OF \<open>start < length content\<close> refl False "1.prems"(1,2)] nl by simp
      have sl: "py_slice content start ?e = take (nat ?e - start) (drop start content)"
        using False e by (intro py_slice_inside) auto
      have len: "length (py_slice content start ?e) = nat ?e - start"
        using False e by (simp add: sl)
      have "nat ?e - start - nat (?e - int ?n) = ?n - start" using n e by auto
      then have piece: "take (length (py_slice content start ?e) - nat (?e - int ?n)) (py_slice content start ?e)
          = take (?n - start) (drop start content)"
        using n e by (simp add: len) (simp add: sl min_def)
      have "take (?n - start) (drop start content) @ drop ?n content = drop start content"
        using n(1) append_take_drop_id [of "?n - start" "drop start content"] by simp
      with piece IH sr split_ranges_nonempty [OF nl, of av ov] show ?thesis
        by (simp add: remove_overlaps_Cons Let_def)
    qed
  qed
qed

lemma overlap_formula:
  assumes "0 \<le> ov" "int start < e"
  shows "e - int (next_start ov start e) = min ov (e - int start - 1)"
  using assms by (auto simp: next_start_def)

lemma split_ranges_covers_nonspace:
  assumes "0 < av" "0 \<le> ov" "start \<le> k" "k < length content" "\<not> isspace (content ! k)"
  shows "segments_of content (split_ranges av ov content start) \<noteq> []"
  using assms
proof (induction av ov content start rule: split_ranges.induct)
  case (1 av ov content start)
  let ?e = "chunk_end av content start"
  let ?n = "next_start ov start ?e"
  have e: "int start < ?e" using "1.prems"(1) by (rule chunk_end_gt_start)
  have sl: "start < length content" using "1.prems" by simp
  show ?case
  proof (cases "int k < ?e")
    case True
    have "strip (py_slice content start ?e) \<noteq> []"
      using "1.prems"(3) True "1.prems"(4,5) by (rule strip_slice_nonspace)
    with sl show ?thesis
      by (subst split_ranges.simps) (simp add: Let_def segments_of_def)
  next
    case False
    with "1.prems" have notfinal: "\<not> ?e \<ge> int (length content)" by simp
    have "int ?n \<le> ?e" using next_start_le_end [OF "1.prems"(2) e] .
    with False have "?n \<le> k" by simp
    with "1.IH" [OF sl refl notfinal "1.prems"(1,2) _ "1.prems"(4,5)]
    have "segments_of content (split_ranges av ov content ?n) \<noteq> []" by simp
    with sl notfinal show ?thesis
      by (subst split_ranges.simps) (simp add: Let_def segments_of_def)
  qed
qed

lemma segments_of_trimmed:
  assumes "s \<in> set (segments_of content rs)"
  shows "s \<noteq> []" "strip s = s"
  using assms by (auto simp: segments_of_def strip_idem)

lemma split_content_as_ranges:
  assumes "available_chars < int (length content)"
  shows "split_content_with_overlap p content available_chars
    = segments_of content (split_ranges available_chars (overlap_size p) content 0)"
  using assms by (simp add: split_content_with_overlap_def split_loop_ranges)

section \<open>What the splitter returns\<close>

lemmas split_eval =
  split_content_with_overlap_def split_loop_ranges segments_of_def split_ranges.simps
  chunk_end_def find_break_point_def search_back_def sentence_end_at_def next_start_def
  py_slice_def strip_def isspace_def lit_def upto.simps Let_def

lemma example_split:
  "split_content_with_overlap example_processor (lit ''aaaa bbbb cccc'') 7
     = [lit ''aaaa'', lit ''a bbbb'', lit ''b cccc'']"
  by (simp add: example_processor_def split_eval)

text \<open>
  C6 (as the code has it): for content longer than \<open>available_chars\<close>, with a positive
  \<open>available_chars\<close> and a non-negative \<open>overlap_size\<close>, the returned segments are the
  trimmed slices \<open>content[start:end]\<close> of the loop (empty ones left out), and the
  untrimmed slices, each non-final one without the characters it shares with the next
  slice (\<open>end - next_start\<close>, that is \<open>min(overlap_size, end - start - 1)\<close> of them),
  concatenate to exactly the content.
\<close>

theorem split_ranges_cover:
  assumes "0 < available_chars" "0 \<le> overlap_size p"
    and "available_chars < int (length content)"
  shows "split_content_with_overlap p content available_chars
           = segments_of content (split_ranges available_chars (overlap_size p) content 0)
         \<and> concat (remove_overlaps (overlap_size p) content
                     (split_ranges available_chars (overlap_size p) content 0)) = content"
  using split_content_as_ranges [OF assms(3), of p]
    remove_overlaps_ranges [OF assms(1,2), of 0 content]
  by simp

theorem split_ranges_cover_witness:
  "(0::int) < 7 \<and> 0 \<le> overlap_size example_processor
   \<and> 7 < int (length (lit ''aaaa bbbb cccc''))
   \<and> split_content_with_overlap example_processor (lit ''aaaa bbbb cccc'') 7
       = segments_of (lit ''aaaa bbbb cccc'')
           (split_ranges 7 (overlap_size example_processor) (lit ''aaaa bbbb cccc'') 0)
   \<and> concat (remove_overlaps (overlap_size example_processor) (lit ''aaaa bbbb cccc'')
               (split_ranges 7 (overlap_size example_processor) (lit ''aaaa bbbb cccc'') 0))
       = lit ''aaaa bbbb cccc''"
  using split_ranges_cover [of 7 example_processor "lit ''aaaa bbbb cccc''"]
  by (simp add: example_processor_def lit_def)

text \<open>
  C6 as stated fails: with \<open>available_chars = 7\<close> and \<open>overlap_size = 2\<close> the content
  \<open>"aaaa bbbb cccc"\<close> is split into \<open>"aaaa"\<close>, \<open>"a bbbb"\<close> and \<open>"b cccc"\<close>; removing
  the last 2 characters of the first two segments leaves \<open>"aa"\<close>, \<open>"a bb"\<close> and
  \<open>"b cccc"\<close>, which lack an \<open>a\<close> and a \<open>b\<close> of the content, whitespace apart.
\<close>

theorem spec_reconstruction_counterexample:
  "7 < int (length (lit ''aaaa bbbb cccc''))
   \<and> remove_whitespace (concat (spec_remove_overlap (nat (overlap_size example_processor))
         (split_content_with_overlap example_processor (lit ''aaaa bbbb cccc'') 7)))
       \<noteq> remove_whitespace (lit ''aaaa bbbb cccc'')"
  by (simp add: example_split) (simp add: example_processor_def remove_whitespace_def lit_def isspace_def)

lemma split_whitespace_only:
  assumes "\<forall>c \<in> set content. isspace c"
  shows "split_content_with_overlap p content available_chars
    = (if int (length content) \<le> available_chars then [content] else [])"
proof -
  have "strip (py_slice content s e) = []" for s e
  proof -
    have "set (py_slice content s e) \<subseteq> set content"
      unfolding py_slice_def Let_def by (meson set_drop_subset set_take_subset subset_trans)
    with assms show ?thesis by (auto simp: strip_eq_Nil_iff)
  qed
  then have "segments_of content rs = []" for rs
    by (induction rs) (auto simp: segments_of_def)
  then show ?thesis
    by (simp add: split_content_with_overlap_def split_loop_ranges)
qed

text \<open>
  C5 (as the code has it): for every content with at least one non-whitespace
  character, every positive \<open>available_chars\<close> and every non-negative \<open>overlap_size\<close>,
  the returned sequence is non-empty and none of its segments is empty after trimming.
\<close>

theorem split_segments_nonempty:
  assumes "0 < available_chars" "0 \<le> overlap_size p" "\<exists>c \<in> set content. \<not> isspace c"
  shows "split_content_with_overlap p content available_chars \<noteq> []
         \<and> (\<forall>s \<in> set (split_content_with_overlap p content available_chars). strip s \<noteq> [])"
proof (cases "int (length content) \<le> available_chars")
  case True
  with assms(3) show ?thesis
    by (simp add: split_content_with_overlap_def strip_eq_Nil_iff)
next
  case False
  then have eq: "split_content_with_overlap p content available_chars
      = segments_of content (split_ranges available_chars (overlap_size p) content 0)"
    by (simp add: split_content_as_ranges)
  from assms(3) obtain k where "k < length content" "\<not> isspace (content ! k)"
    by (auto simp: in_set_conv_nth)
  with assms(1,2)
  have "segments_of content (split_ranges available_chars (overlap_size p) content 0) \<noteq> []"
    by (intro split_ranges_covers_nonspace [where k = k]) auto
  moreover have "strip s \<noteq> []"
    if "s \<in> set (segments_of content (split_ranges available_chars (overlap_size p) content 0))"
    for s
    using segments_of_trimmed [OF that] by simp
  ultimately show ?thesis by (simp add: eq)
qed

theorem split_segments_nonempty_witness:
  "(0::int) < 7 \<and> 0 \<le> overlap_size example_processor
   \<and> (\<exists>c \<in> set (lit ''aaaa bbbb cccc''). \<not> isspace c)
   \<and> split_content_with_overlap example_processor (lit ''aaaa bbbb cccc'') 7 \<noteq> []
   \<and> list_all (\<lambda>s. strip s \<noteq> [])
         (split_content_with_overlap example_processor (lit ''aaaa bbbb cccc'') 7)"
proof -
  have h: "\<exists>c \<in> set (lit ''aaaa bbbb cccc''). \<not> isspace c"
    by (simp add: lit_def isspace_def)
  have o: "0 \<le> overlap_size example_processor" by (simp add: example_processor_def)
  show ?thesis
    using split_segments_nonempty [of 7 example_processor "lit ''aaaa bbbb cccc''"] h o
    by (simp add: list_all_iff)
qed

text \<open>
  C5 as stated fails: the empty content fits in one character and is returned as the one
  segment \<open>""\<close>, which is empty; and content of three blanks, split at two characters,
  gives the empty sequence.
\<close>

theorem split_empty_segment_counterexample:
  "split_content_with_overlap example_processor (lit '''') 1 = [lit '''']
   \<and> strip (lit '''') = []
   \<and> split_content_with_overlap example_processor (lit ''   '') 2 = []"
  by (simp add: example_processor_def split_eval)

section \<open>Chunk ids\<close>

lemma digits_are_digits: "c \<in> set (digits n) \<Longrightarrow> is_digit c"
proof (induction n rule: digits.induct)
  case (1 n)
  show ?case
  proof (cases "n < 10")
    case True
    with "1.prems" show ?thesis
      by (subst (asm) digits.simps) (simp add: is_digit_def)
  next
    case False
    with "1.prems" have "c \<in> set (digits (n div 10)) \<or> c = 48 + n mod 10"
      by (subst (asm) digits.simps) auto
    then show ?thesis
    proof
      assume "c \<in> set (digits (n div 10))"
      with False "1.IH" show ?thesis by simp
    next
      assume "c = 48 + n mod 10"
      moreover have "n mod 10 < 10" by simp
      ultimately show ?thesis unfolding is_digit_def by linarith
    qed
  qed
qed

lemma digits_val_snoc: "digits_val (s @ [c]) = 10 * digits_val s + (c - 48)"
  by (simp add: digits_val_def)

lemma digits_val_digits: "digits_val (digits n) = n"
proof (induction n rule: digits.induct)
  case (1 n)
  show ?case
  proof (cases "n < 10")
    case True
    then show ?thesis by (subst digits.simps) (simp add: digits_val_def)
  next
    case False
    with "1.IH" have "digits_val (digits (n div 10)) = n div 10" by simp
    with False show ?thesis
      by (subst digits.simps) (simp add: digits_val_snoc)
  qed
qed

lemma digits_val_zeros: "digits_val (replicate k 48 @ s) = digits_val s"
proof -
  have "foldl (\<lambda>a c. 10 * a + (c - 48)) 0 (replicate k 48) = (0::nat)"
    by (induction k) simp_all
  then show ?thesis by (simp add: digits_val_def)
qed

lemma format_06d_digits:
  assumes "0 \<le> n"
  shows "\<forall>c \<in> set (format_06d n). is_digit c" and "digits_val (format_06d n) = nat n"
proof -
  from assms have f: "format_06d n
      = replicate (6 - length (digits (nat n))) 48 @ digits (nat n)"
    by (simp add: format_06d_def Let_def)
  show "\<forall>c \<in> set (format_06d n). is_digit c"
    unfolding f using digits_are_digits by (auto simp: is_digit_def)
  show "digits_val (format_06d n) = nat n"
    unfolding f by (simp add: digits_val_zeros digits_val_digits)
qed

lemma id_counter_chunk:
  assumes "0 \<le> n"
  shows "id_counter (lit ''chunk_'' @ format_06d n @ lit ''_'' @ rest) = nat n"
proof -
  have "drop 6 (lit ''chunk_'' @ format_06d n @ lit ''_'' @ rest) = format_06d n @ 95 # rest"
    by (simp add: lit_def)
  moreover have "takeWhile is_digit (format_06d n @ 95 # rest) = format_06d n"
    using format_06d_digits(1) [OF assms] by (simp add: takeWhile_tail is_digit_def)
  ultimately show ?thesis
    using format_06d_digits(2) [OF assms] by (simp add: id_counter_def)
qed

lemma generate_chunk_id_counter:
  assumes "generate_chunk_id isalnum stem p source_filename entry_title i = (cid, p')"
    and "0 \<le> global_chunk_counter p"
  shows "global_chunk_counter p' = global_chunk_counter p + 1"
    and "int (id_counter cid) = global_chunk_counter p + 1"
    and "hierarchy_cache p' = hierarchy_cache p"
proof -
  from assms(1) have p': "p' = p\<lparr>global_chunk_counter := global_chunk_counter p + 1\<rparr>"
    and cid: "cid = lit ''chunk_'' @ format_06d (global_chunk_counter p + 1) @ lit ''_'' @
      (stem source_filename @ lit ''_'' @
       take 30 (map (\<lambda>c. if c = 32 then 95 else c)
         (strip (filter (\<lambda>c. isalnum c \<or> c \<in> set (lit '' -_'')) entry_title)))
       @ lit ''_'' @ digits i)"
    by (auto simp: generate_chunk_id_def Let_def)
  show "global_chunk_counter p' = global_chunk_counter p + 1" by (simp add: p')
  show "hierarchy_cache p' = hierarchy_cache p" by (simp add: p')
  have "0 \<le> global_chunk_counter p + 1" using assms(2) by simp
  from id_counter_chunk [OF this] assms(2)
  show "int (id_counter cid) = global_chunk_counter p + 1" unfolding cid by simp
qed

lemma numbered_from_append:
  assumes "numbered_from c xs" "numbered_from (c + int (length xs)) ys"
  shows "numbered_from c (xs @ ys)"
proof -
  have "[c + 1..c + int (length xs) + int (length ys)]
      = [c + 1..c + int (length xs)] @ [c + int (length xs) + 1..c + int (length xs) + int (length ys)]"
  proof (cases xs)
    case Nil
    then show ?thesis by simp
  next
    case (Cons x xs')
    then show ?thesis by (intro upto_split2) auto
  qed
  with assms show ?thesis by (simp add: numbered_from_def add.assoc)
qed

lemma numbered_from_distinct:
  assumes "numbered_from c chunks"
  shows "distinct (map (\<lambda>ch. chunk_id (metadata ch)) chunks)"
proof -
  have "distinct (map (\<lambda>cid. int (id_counter cid)) (map (\<lambda>ch. chunk_id (metadata ch)) chunks))"
    using assms by (simp add: numbered_from_def comp_def)
  then show ?thesis using distinct_map by blast
qed

lemma assemble_chunks_numbered:
  assumes "assemble_chunks isalnum stem p bg bl sf ct fp i segs = (chunks, p')"
    and "0 \<le> global_chunk_counter p"
  shows "length chunks = length segs
    \<and> global_chunk_counter p' = global_chunk_counter p + int (length chunks)
    \<and> numbered_from (global_chunk_counter p) chunks"
  using assms
proof (induction segs arbitrary: p i chunks p')
  case Nil
  then show ?case by (simp add: numbered_from_def)
next
  case (Cons seg segs)
  obtain cid p1 where g: "generate_chunk_id isalnum stem p sf ct i = (cid, p1)"
    by (cases "generate_chunk_id isalnum stem p sf ct i")
  obtain cs p2 where a: "assemble_chunks isalnum stem p1 bg bl sf ct fp (i + 1) segs = (cs, p2)"
    by (cases "assemble_chunks isalnum stem p1 bg bl sf ct fp (i + 1) segs")
  note gc = generate_chunk_id_counter [OF g Cons.prems(2)]
  from gc(1) Cons.prems(2) have "0 \<le> global_chunk_counter p1" by simp
  from Cons.IH [OF a this]
  have IH: "length cs = length segs"
    "global_chunk_counter p2 = global_chunk_counter p1 + int (length cs)"
    "numbered_from (global_chunk_counter p1) cs" by simp_all
  from Cons.prems(1) g a obtain c where c: "chunks = c # cs" "p' = p2"
    "chunk_id (metadata c) = cid"
    by (auto simp: Let_def)
  have "numbered_from (global_chunk_counter p) [c]"
    using gc(2) c(3) by (simp add: numbered_from_def)
  with IH(3) gc(1) have "numbered_from (global_chunk_counter p) ([c] @ cs)"
    by (intro numbered_from_append) simp_all
  with IH gc(1) c show ?case by simp
qed

subsection \<open>The counter over a run\<close>

lemma build_hierarchical_background_counter:
  "global_chunk_counter (snd (build_hierarchical_background p e all_entries))
     = global_chunk_counter p"
  by (simp add: build_hierarchical_background_def Let_def split: prod.splits)

lemma create_chunks_numbered:
  assumes "create_chunks_from_entry isalnum stem p e all_entries sf = (chunks, p')"
    and "0 \<le> global_chunk_counter p"
  shows "global_chunk_counter p' = global_chunk_counter p + int (length chunks)
    \<and> numbered_from (global_chunk_counter p) chunks"
proof -
  obtain bg wt p1 where b: "build_hierarchical_background p e all_entries = ((bg, wt), p1)"
    by (metis surj_pair)
  obtain bg' bl wt' av where al: "allocate_budget p1 bg wt = (bg', bl, wt', av)"
    by (metis surj_pair)
  from build_hierarchical_background_counter [of p e all_entries] b
  have c1: "global_chunk_counter p1 = global_chunk_counter p" by simp
  from assms(1) b al obtain segs ct fp where
    "assemble_chunks isalnum stem p1 bg' bl sf ct fp 0 segs = (chunks, p')"
    by (simp add: create_chunks_from_entry_def Let_def)
  from assemble_chunks_numbered [OF this] assms(2) c1 show ?thesis by simp
qed

lemma process_entries_numbered:
  assumes "process_entries isalnum stem p all_entries sf es = (chunks, p')"
    and "0 \<le> global_chunk_counter p"
  shows "global_chunk_counter p' = global_chunk_counter p + int (length chunks)
    \<and> numbered_from (global_chunk_counter p) chunks"
  using assms
proof (induction es arbitrary: p chunks p')
  case Nil
  then show ?case by (simp add: numbered_from_def)
next
  case (Cons e es)
  obtain cs p1 where c: "create_chunks_from_entry isalnum stem p e all_entries sf = (cs, p1)"
    by (metis surj_pair)
  obtain more p2 where m: "process_entries isalnum stem p1 all_entries sf es = (more, p2)"
    by (metis surj_pair)
  note cn = create_chunks_numbered [OF c Cons.prems(2)]
  then have "0 \<le> global_chunk_counter p1" using Cons.prems(2) by simp
  note IH = Cons.IH [OF m this]
  from Cons.prems(1) c m have r: "chunks = cs @ more" "p' = p2" by simp_all
  from cn IH have "numbered_from (global_chunk_counter p) (cs @ more)"
    by (intro numbered_from_append) simp_all
  with cn IH r show ?case by simp
qed

lemma process_json_file_numbered:
  assumes "process_json_file isalnum stem p sf entries = (chunks, p')"
    and "0 \<le> global_chunk_counter p"
  shows "global_chunk_counter p' = global_chunk_counter p + int (length chunks)
    \<and> numbered_from (global_chunk_counter p) chunks"
  using process_entries_numbered [of isalnum stem "p\<lparr>hierarchy_cache := Map.empty\<rparr>"
      entries sf entries chunks p'] assms
  by (simp add: process_json_file_def)

lemma process_all_json_files_numbered:
  assumes "process_all_json_files isalnum stem p files = (chunks, p')"
    and "0 \<le> global_chunk_counter p"
  shows "global_chunk_counter p' = global_chunk_counter p + int (length chunks)
    \<and> numbered_from (global_chunk_counter p) chunks"
  using assms
proof (induction files arbitrary: p chunks p')
  case Nil
  then show ?case by (simp add: numbered_from_def)
next
  case (Cons f files)
  obtain sf entries where f: "f = (sf, entries)" by (cases f)
  obtain cs p1 where c: "process_json_file isalnum stem p sf entries = (cs, p1)"
    by (metis surj_pair)
  obtain more p2 where m: "process_all_json_files isalnum stem p1 files = (more, p2)"
    by (metis surj_pair)
  note cn = process_json_file_numbered [OF c Cons.prems(2)]
  then have "0 \<le> global_chunk_counter p1" using Cons.prems(2) by simp
  note IH = Cons.IH [OF m this]
  from Cons.prems(1) f c m have r: "chunks = cs @ more" "p' = p2" by simp_all
  from cn IH have "numbered_from (global_chunk_counter p) (cs @ more)"
    by (intro numbered_from_append) simp_all
  with cn IH r show ?case by simp
qed

text \<open>
  C1: in a run of one processor over any sequence of files, each with any entries, the
  counter grows by exactly one per chunk produced and is carried from file to file
  (\<open>process_json_file\<close> resets only the hierarchy cache), and no two chunks of the run
  have the same \<open>chunk_id\<close>. The counter starts at 0 and is never negative.
\<close>

theorem chunk_ids_unique:
  assumes "0 \<le> global_chunk_counter p"
  shows "distinct (map (\<lambda>c. chunk_id (metadata c))
                     (fst (process_all_json_files isalnum stem p files)))
         \<and> global_chunk_counter (snd (process_all_json_files isalnum stem p files))
             = global_chunk_counter p
               + int (length (fst (process_all_json_files isalnum stem p files)))"
proof -
  obtain chunks p' where r: "process_all_json_files isalnum stem p files = (chunks, p')"
    by (metis surj_pair)
  from process_all_json_files_numbered [OF r assms]
  have n: "numbered_from (global_chunk_counter p) chunks"
    and c: "global_chunk_counter p' = global_chunk_counter p + int (length chunks)"
    by simp_all
  from numbered_from_distinct [OF n] c show ?thesis by (simp add: r)
qed

theorem chunk_ids_unique_witness:
  "0 \<le> global_chunk_counter processor_200
   \<and> distinct (map (\<lambda>c. chunk_id (metadata c))
        (fst (process_all_json_files example_isalnum example_stem processor_200
               [(lit ''d1.json'', [entry_A, entry_B]), (lit ''d2.json'', [entry_B, entry_A])])))
   \<and> global_chunk_counter
        (snd (process_all_json_files example_isalnum example_stem processor_200
               [(lit ''d1.json'', [entry_A, entry_B]), (lit ''d2.json'', [entry_B, entry_A])]))
      = global_chunk_counter processor_200
        + int (length (fst (process_all_json_files example_isalnum example_stem processor_200
               [(lit ''d1.json'', [entry_A, entry_B]), (lit ''d2.json'', [entry_B, entry_A])])))"
proof -
  have h: "0 \<le> global_chunk_counter processor_200" by (simp add: processor_200_def)
  show ?thesis
    using chunk_ids_unique [OF h, of example_isalnum example_stem
        "[(lit ''d1.json'', [entry_A, entry_B]), (lit ''d2.json'', [entry_B, entry_A])]"] h
    by simp
qed

section \<open>The background\<close>

lemma replicate_numeral_Cons: "replicate (numeral k) x = x # replicate (pred_numeral k) x"
  by (simp add: numeral_eq_Suc)

lemmas background_eval =
  build_hierarchical_background_def allocate_budget_def reduce_background_def
  startswith_def endswith_def py_from_def py_slice_def strip_def isspace_def lit_def Let_def

lemma example_background:
  "fst (build_hierarchical_background processor_200 entry_B [entry_A, entry_B])
     = (lit ''[BACKGROUND]\<newline>[TRUNCATED] '' @ replicate 68 98 @ lit ''\<newline>[/BACKGROUND]'', True)"
  by (simp add: processor_200_def entry_A_def entry_B_def background_eval
      dropWhile_replicate)

lemma example_joined: "joined_background processor_200 entry_B [entry_A, entry_B] = replicate 100 98"
  by (simp add: joined_background_def processor_200_def entry_A_def entry_B_def
      strip_def isspace_def lit_def dropWhile_replicate Let_def)

lemma build_hierarchical_background_cases:
  "fst (build_hierarchical_background p e all_entries) =
     (let raw = joined_background p e all_entries
      in if raw = [] then ([], False)
         else if int (length raw) > max_background_size p then
           (lit ''[BACKGROUND]\<newline>'' @ lit ''[TRUNCATED] ''
              @ py_from raw (int (length raw) - max_background_size p + 12)
              @ lit ''\<newline>[/BACKGROUND]'', True)
         else (lit ''[BACKGROUND]\<newline>'' @ raw @ lit ''\<newline>[/BACKGROUND]'', False))"
  unfolding build_hierarchical_background_def joined_background_def Let_def
  by (simp add: lit_def split: prod.splits)

text \<open>
  C8 (as the code has it): for a \<open>max_background_size\<close> that is not negative, the
  background returned by \<open>build_hierarchical_background\<close> is at most
  \<open>max_background_size + 39\<close> characters long, 39 being the length of the two labels
  and the truncation marker; when the joined ancestor text is longer than
  \<open>max_background_size\<close>, the result is the marker followed by the tail of the joined
  text from \<open>len - max_background_size + 12\<close> on, between the labels, and the flag is
  true.
\<close>

theorem background_bound:
  assumes "0 \<le> max_background_size p"
  shows "int (length (fst (fst (build_hierarchical_background p e all_entries))))
           \<le> max_background_size p + 39
         \<and> (if max_background_size p < int (length (joined_background p e all_entries))
            then fst (build_hierarchical_background p e all_entries)
                 = (lit ''[BACKGROUND]\<newline>'' @ lit ''[TRUNCATED] ''
                      @ drop (nat (int (length (joined_background p e all_entries))
                                    - max_background_size p + 12))
                          (joined_background p e all_entries)
                      @ lit ''\<newline>[/BACKGROUND]'', True)
            else snd (fst (build_hierarchical_background p e all_entries)) = False)"
  using assms unfolding build_hierarchical_background_cases Let_def
  by (auto simp: lit_def py_from_def)

theorem background_bound_witness:
  "0 \<le> max_background_size processor_200
   \<and> int (length (fst (fst (build_hierarchical_background processor_200 entry_B
                              [entry_A, entry_B]))))
       \<le> max_background_size processor_200 + 39
   \<and> max_background_size processor_200
       < int (length (joined_background processor_200 entry_B [entry_A, entry_B]))
   \<and> fst (build_hierarchical_background processor_200 entry_B [entry_A, entry_B])
       = (lit ''[BACKGROUND]\<newline>'' @ lit ''[TRUNCATED] ''
            @ drop 32 (replicate 100 98) @ lit ''\<newline>[/BACKGROUND]'', True)"
proof -
  have h: "0 \<le> max_background_size processor_200" by (simp add: processor_200_def)
  have m: "max_background_size processor_200 = 80" by (simp add: processor_200_def)
  show ?thesis
    using background_bound [OF h, of entry_B "[entry_A, entry_B]"] h
    by (simp add: example_joined m lit_def)
qed

text \<open>
  C8 as stated fails for a negative \<open>max_background_size\<close>, which the constructor
  accepts: with a cap of \<open>-3\<close> the joined text of 100 characters is cut to nothing, and
  the labels and the marker alone make 39 characters, more than \<open>-3 + 39 = 36\<close>.
\<close>

theorem background_bound_counterexample:
  "max_background_size (processor_200\<lparr>max_background_size := - 3\<rparr>) = - 3
   \<and> fst (build_hierarchical_background (processor_200\<lparr>max_background_size := - 3\<rparr>)
            entry_B [entry_A, entry_B])
       = (lit ''[BACKGROUND]\<newline>[TRUNCATED] '' @ lit ''\<newline>[/BACKGROUND]'', True)
   \<and> int (length (fst (fst (build_hierarchical_background
                               (processor_200\<lparr>max_background_size := - 3\<rparr>)
                               entry_B [entry_A, entry_B])))) = 39
   \<and> \<not> int (length (fst (fst (build_hierarchical_background
                                 (processor_200\<lparr>max_background_size := - 3\<rparr>)
                                 entry_B [entry_A, entry_B]))))
         \<le> max_background_size (processor_200\<lparr>max_background_size := - 3\<rparr>) + 39"
proof -
  have "fst (build_hierarchical_background (processor_200\<lparr>max_background_size := - 3\<rparr>)
            entry_B [entry_A, entry_B])
       = (lit ''[BACKGROUND]\<newline>[TRUNCATED] '' @ lit ''\<newline>[/BACKGROUND]'', True)"
    by (simp add: processor_200_def entry_A_def entry_B_def background_eval
        dropWhile_replicate)
  then show ?thesis by (simp add: lit_def)
qed

lemma resolvable_cached:
  assumes "find (\<lambda>other_entry. title other_entry = Some h) all_entries = Some x"
  shows "resolvable all_entries (cache(h \<mapsto> c)) = resolvable all_entries cache"
proof
  fix h'
  show "resolvable all_entries (cache(h \<mapsto> c)) h' = resolvable all_entries cache h'"
    using assms by (cases "h' = h") (simp_all add: resolvable_def split: option.splits)
qed

lemma collect_background_parts_resolvable:
  "fst (collect_background_parts all_entries (filter (resolvable all_entries cache) hs) cache parts)
     = fst (collect_background_parts all_entries hs cache parts)"
proof (induction hs arbitrary: cache parts)
  case Nil
  show ?case by simp
next
  case (Cons h hs)
  show ?case
  proof (cases "cache h")
    case (Some cached)
    then have "resolvable all_entries cache h" by (simp add: resolvable_def)
    with Some Cons.IH [of cache "parts @ [cached]"] show ?thesis by simp
  next
    case None
    show ?thesis
    proof (cases "find (\<lambda>other_entry. title other_entry = Some h) all_entries")
      case None
      with \<open>cache h = None\<close> have "\<not> resolvable all_entries cache h"
        by (simp add: resolvable_def)
      with None \<open>cache h = None\<close> Cons.IH [of cache parts] show ?thesis by simp
    next
      case (Some x)
      define c where "c = strip (entry_content x)"
      from Some \<open>cache h = None\<close> have res: "resolvable all_entries cache h"
        by (simp add: resolvable_def)
      have r: "filter (resolvable all_entries (cache(h \<mapsto> c))) hs
          = filter (resolvable all_entries cache) hs"
        by (simp only: resolvable_cached [OF Some])
      have step: "collect_background_parts all_entries (h # hs') cache parts
          = collect_background_parts all_entries hs' (cache(h \<mapsto> c)) (parts @ [c])" for hs'
        using Some \<open>cache h = None\<close> by (simp add: Let_def c_def)
      have "fst (collect_background_parts all_entries
                   (filter (resolvable all_entries cache) (h # hs)) cache parts)
          = fst (collect_background_parts all_entries
                   (filter (resolvable all_entries (cache(h \<mapsto> c))) hs)
                   (cache(h \<mapsto> c)) (parts @ [c]))"
        using res by (simp only: filter.simps if_True step r)
      also have "\<dots> = fst (collect_background_parts all_entries hs (cache(h \<mapsto> c)) (parts @ [c]))"
        by (rule Cons.IH)
      also have "\<dots> = fst (collect_background_parts all_entries (h # hs) cache parts)"
        by (simp only: step)
      finally show ?thesis .
    qed
  qed
qed

text \<open>
  C9 (as the code has it): an ancestor title that is neither cached nor the title of an
  entry adds nothing (the background is the one of the resolvable titles alone; nothing
  is raised for it); when no title of the hierarchy is resolvable the joined text is
  empty; when the joined text is empty the result is exactly \<open>("", False)\<close>, without
  labels; when the joined text is not empty the returned string is a non-empty text
  between the labels \<open>[BACKGROUND]\<close> and \<open>[/BACKGROUND]\<close>.
\<close>

theorem background_wrapping:
  "joined_background p e all_entries
     = join (lit ''\<newline>\<newline>'')
         (fst (collect_background_parts all_entries
                 (filter (resolvable all_entries (hierarchy_cache p)) (hierarchy e))
                 (hierarchy_cache p) []))
   \<and> (filter (resolvable all_entries (hierarchy_cache p)) (hierarchy e) = []
        \<longrightarrow> joined_background p e all_entries = [])
   \<and> (if joined_background p e all_entries = []
       then fst (build_hierarchical_background p e all_entries) = ([], False)
       else \<exists>raw. raw \<noteq> []
              \<and> fst (fst (build_hierarchical_background p e all_entries))
                  = lit ''[BACKGROUND]\<newline>'' @ raw @ lit ''\<newline>[/BACKGROUND]'')"
proof -
  have a: "joined_background p e all_entries
     = join (lit ''\<newline>\<newline>'')
         (fst (collect_background_parts all_entries
                 (filter (resolvable all_entries (hierarchy_cache p)) (hierarchy e))
                 (hierarchy_cache p) []))"
    by (simp add: joined_background_def collect_background_parts_resolvable)
  have b: "joined_background p e all_entries = []"
    if "filter (resolvable all_entries (hierarchy_cache p)) (hierarchy e) = []"
    using that unfolding a by simp
  have c: "fst (build_hierarchical_background p e all_entries) = ([], False)"
    if "joined_background p e all_entries = []"
    using that by (simp add: build_hierarchical_background_cases Let_def)
  have d: "\<exists>raw. raw \<noteq> []
              \<and> fst (fst (build_hierarchical_background p e all_entries))
                  = lit ''[BACKGROUND]\<newline>'' @ raw @ lit ''\<newline>[/BACKGROUND]''"
    if "joined_background p e all_entries \<noteq> []"
  proof (cases "int (length (joined_background p e all_entries)) > max_background_size p")
    case True
    with that have "fst (fst (build_hierarchical_background p e all_entries))
      = lit ''[BACKGROUND]\<newline>'' @ (lit ''[TRUNCATED] ''
              @ py_from (joined_background p e all_entries)
                  (int (length (joined_background p e all_entries)) - max_background_size p + 12))
              @ lit ''\<newline>[/BACKGROUND]''"
      by (simp add: build_hierarchical_background_cases Let_def)
    moreover have "lit ''[TRUNCATED] ''
              @ py_from (joined_background p e all_entries)
                  (int (length (joined_background p e all_entries)) - max_background_size p + 12)
        \<noteq> []" by (simp add: lit_def)
    ultimately show ?thesis by blast
  next
    case False
    with that have "fst (fst (build_hierarchical_background p e all_entries))
      = lit ''[BACKGROUND]\<newline>'' @ joined_background p e all_entries @ lit ''\<newline>[/BACKGROUND]''"
      by (simp add: build_hierarchical_background_cases Let_def)
    with that show ?thesis by blast
  qed
  from a b c d show ?thesis by simp
qed

lemma example_joined_empty: "joined_background processor_200 entry_C [entry_H, entry_C] = []"
  by (simp add: joined_background_def processor_200_def entry_H_def entry_C_def
      strip_def isspace_def lit_def Let_def)

theorem background_wrapping_witness:
  "filter (resolvable [entry_B] (hierarchy_cache processor_200)) (hierarchy entry_B) = []
   \<and> joined_background processor_200 entry_B [entry_B] = []
   \<and> joined_background processor_200 entry_C [entry_H, entry_C] = []
   \<and> fst (build_hierarchical_background processor_200 entry_C [entry_H, entry_C]) = ([], False)
   \<and> joined_background processor_200 entry_B [entry_A, entry_B] \<noteq> []
   \<and> (\<exists>raw. raw \<noteq> []
         \<and> fst (fst (build_hierarchical_background processor_200 entry_B [entry_A, entry_B]))
             = lit ''[BACKGROUND]\<newline>'' @ raw @ lit ''\<newline>[/BACKGROUND]'')"
proof -
  have f: "filter (resolvable [entry_B] (hierarchy_cache processor_200)) (hierarchy entry_B) = []"
    by (simp add: resolvable_def processor_200_def entry_B_def lit_def)
  have j: "joined_background processor_200 entry_B [entry_A, entry_B] \<noteq> []"
    by (simp add: example_joined)
  show ?thesis
    using background_wrapping [of processor_200 entry_B "[entry_B]"]
      background_wrapping [of processor_200 entry_C "[entry_H, entry_C]"]
      background_wrapping [of processor_200 entry_B "[entry_A, entry_B]"]
      f j example_joined_empty
    by simp
qed

text \<open>
  C9 as stated fails: the one ancestor \<open>H\<close> of \<open>C\<close> resolves, to an entry whose body
  is blank, and the result is \<open>("", False)\<close>, without labels.
\<close>

theorem background_unwrapped_counterexample:
  "hierarchy entry_C = [lit ''H'']
   \<and> resolvable [entry_H, entry_C] (hierarchy_cache processor_200) (lit ''H'')
   \<and> fst (build_hierarchical_background processor_200 entry_C [entry_H, entry_C]) = ([], False)"
  by (simp add: resolvable_def processor_200_def entry_H_def entry_C_def lit_def
      build_hierarchical_background_def strip_def isspace_def Let_def)

section \<open>The chunks of an entry\<close>

lemma allocate_budget_result:
  assumes "allocate_budget p background was_truncated = (background', bl, wt', av)"
  shows "bl = length background'"
    and "av = max (chunk_size p - int bl) 100"
    and "100 \<le> av"
  using assms unfolding allocate_budget_def Let_def
  by (auto split: if_splits)

lemma assemble_chunks_member:
  assumes "c \<in> set (fst (assemble_chunks isalnum stem p bg bl sf ct fp i segs))"
  shows "\<exists>seg \<in> set segs.
           chunk_content c = (if bg \<noteq> [] then bg @ lit ''\<newline>\<newline>'' @ seg else seg)
           \<and> md_chunk_size (metadata c) = length (chunk_content c)
           \<and> background_size (metadata c) = bl
           \<and> content_size (metadata c) = length seg"
  using assms
proof (induction segs arbitrary: p i)
  case Nil
  then show ?case by simp
next
  case (Cons seg segs)
  obtain cid p1 where g: "generate_chunk_id isalnum stem p sf ct i = (cid, p1)"
    by (metis surj_pair)
  obtain cs p2 where a: "assemble_chunks isalnum stem p1 bg bl sf ct fp (i + 1) segs = (cs, p2)"
    by (metis surj_pair)
  from Cons.prems g a consider
    "c = \<lparr>chunk_content = (if bg \<noteq> [] then bg @ lit ''\<newline>\<newline>'' @ seg else seg),
          metadata = \<lparr>chunk_id = cid, source_file = sf, md_full_path = fp,
            md_chunk_size = length (if bg \<noteq> [] then bg @ lit ''\<newline>\<newline>'' @ seg else seg),
            background_size = bl, content_size = length seg\<rparr>\<rparr>"
    | "c \<in> set cs"
    by (auto simp: Let_def)
  then show ?case
  proof cases
    case 1
    then show ?thesis by simp
  next
    case 2
    with a Cons.IH [of p1 "i + 1"] show ?thesis by auto
  qed
qed

lemma create_chunks_as_parts:
  "fst (create_chunks_from_entry isalnum stem p e all_entries sf)
     = fst (assemble_chunks isalnum stem (snd (build_hierarchical_background p e all_entries))
         (entry_background p e all_entries) (length (entry_background p e all_entries)) sf
         (case title e of Some t \<Rightarrow> t | None \<Rightarrow> lit ''Unknown'')
         (case full_path e of Some f \<Rightarrow> f
          | None \<Rightarrow> (case title e of Some t \<Rightarrow> t | None \<Rightarrow> lit ''Unknown''))
         0 (entry_segments p e all_entries))"
proof -
  obtain bg wt p1 where b: "build_hierarchical_background p e all_entries = ((bg, wt), p1)"
    by (metis surj_pair)
  obtain bg' bl wt' av where al: "allocate_budget p1 bg wt = (bg', bl, wt', av)"
    by (metis surj_pair)
  from allocate_budget_result(1) [OF al] b al show ?thesis
    by (simp add: create_chunks_from_entry_def entry_background_def entry_segments_def
        entry_available_chars_def Let_def)
qed

lemma entry_available_chars_floor:
  shows "100 \<le> entry_available_chars p e all_entries"
    and "entry_available_chars p e all_entries
        = max (chunk_size p - int (length (entry_background p e all_entries))) 100"
proof -
  obtain bg wt p1 where b: "build_hierarchical_background p e all_entries = ((bg, wt), p1)"
    by (metis surj_pair)
  obtain bg' bl wt' av where al: "allocate_budget p1 bg wt = (bg', bl, wt', av)"
    by (metis surj_pair)
  have cs: "chunk_size p1 = chunk_size p"
    using b by (auto simp: build_hierarchical_background_def Let_def split: prod.splits if_splits)
  from allocate_budget_result [OF al] b al cs
  show "100 \<le> entry_available_chars p e all_entries"
    and "entry_available_chars p e all_entries
        = max (chunk_size p - int (length (entry_background p e all_entries))) 100"
    by (simp_all add: entry_available_chars_def entry_background_def)
qed

text \<open>
  C10: every chunk of \<open>create_chunks_from_entry\<close> is the background of the entry, a
  blank line and one content segment, or the segment alone when the background is empty;
  \<open>chunk_size\<close>, \<open>background_size\<close> and \<open>content_size\<close> are the lengths of the chunk's
  content, of the background and of the segment, so that \<open>chunk_size\<close> is
  \<open>background_size + 2 + content_size\<close> for a non-empty background and
  \<open>content_size\<close>, with \<open>background_size = 0\<close>, for an empty one.
\<close>

theorem chunk_metadata_consistent:
  assumes "c \<in> set (fst (create_chunks_from_entry isalnum stem p e all_entries sf))"
  shows "\<exists>seg \<in> set (entry_segments p e all_entries).
           chunk_content c
             = (if entry_background p e all_entries \<noteq> []
                then entry_background p e all_entries @ lit ''\<newline>\<newline>'' @ seg else seg)
           \<and> md_chunk_size (metadata c) = length (chunk_content c)
           \<and> background_size (metadata c) = length (entry_background p e all_entries)
           \<and> content_size (metadata c) = length seg
           \<and> md_chunk_size (metadata c)
               = (if entry_background p e all_entries \<noteq> []
                  then background_size (metadata c) + 2 + content_size (metadata c)
                  else content_size (metadata c))"
proof -
  from assms obtain seg where seg: "seg \<in> set (entry_segments p e all_entries)"
    "chunk_content c
       = (if entry_background p e all_entries \<noteq> []
          then entry_background p e all_entries @ lit ''\<newline>\<newline>'' @ seg else seg)"
    "md_chunk_size (metadata c) = length (chunk_content c)"
    "background_size (metadata c) = length (entry_background p e all_entries)"
    "content_size (metadata c) = length seg"
    unfolding create_chunks_as_parts by (blast dest: assemble_chunks_member)
  then have "md_chunk_size (metadata c)
               = (if entry_background p e all_entries \<noteq> []
                  then background_size (metadata c) + 2 + content_size (metadata c)
                  else content_size (metadata c))"
    by (simp add: lit_def)
  with seg show ?thesis by blast
qed

subsection \<open>The length of a segment\<close>

lemma strip_two_trailing:
  assumes "isspace a" "isspace b"
  shows "length (strip (xs @ [a, b])) \<le> length xs"
proof (cases "\<forall>x \<in> set xs. isspace x")
  case True
  with assms have "strip (xs @ [a, b]) = []" by (simp add: strip_eq_Nil_iff)
  then show ?thesis by simp
next
  case False
  then have "dropWhile isspace (xs @ [a, b]) = dropWhile isspace xs @ [a, b]"
    by auto
  with assms have "strip (xs @ [a, b]) = rev (dropWhile isspace (rev (dropWhile isspace xs)))"
    by (simp add: strip_def)
  then have "strip (xs @ [a, b]) = strip xs" by (simp add: strip_def)
  then show ?thesis by (simp add: strip_length_le)
qed

lemma find_break_point_over:
  assumes "int start < end" "find_break_point content start end = end + 1"
  shows "py_slice content (nat (end - 1)) (end + 1) = [10, 10]" and "int start < end - 1"
proof -
  from assms have "\<exists>i. search_back (\<lambda>i. py_slice content (nat i) (i + 2) = [10, 10])
                          (end - 1) (max (int start) (end - 200)) = Some i \<and> i + 2 = end + 1"
    unfolding find_break_point_def Let_def
    by (auto split: option.splits if_splits dest!: search_back_Some)
  then obtain i where "search_back (\<lambda>i. py_slice content (nat i) (i + 2) = [10, 10])
                          (end - 1) (max (int start) (end - 200)) = Some i" "i = end - 1"
    by auto
  from search_back_Some [OF this(1)] this(2)
  show "py_slice content (nat (end - 1)) (end + 1) = [10, 10]" and "int start < end - 1"
    by (auto simp: add.commute)
qed

lemma strip_slice_length:
  assumes "0 < av" "start < length content"
  shows "int (length (strip (py_slice content start (chunk_end av content start)))) \<le> av"
proof (cases "int start + av < int (length content)")
  case False
  then have "chunk_end av content start = int start + av" by (simp add: chunk_end_def)
  with False have "py_slice content start (chunk_end av content start) = drop start content"
    by (simp add: py_slice_to_end)
  with False strip_length_le [of "drop start content"] assms(2) show ?thesis
    by (simp only: length_drop)
next
  case True
  let ?end = "int start + av"
  let ?bp = "find_break_point content start ?end"
  from True have ce: "chunk_end av content start = ?bp" by (simp add: chunk_end_def)
  from assms(1) have lt: "int start < ?end" by simp
  note bnd = find_break_point_bounds [OF lt, of content]
  show ?thesis
  proof (cases "?bp = ?end + 1")
    case False
    with bnd have le: "?bp \<le> ?end" by simp
    have "length (py_slice content start ?bp) \<le> nat ?bp - start"
      using bnd(1) True le by (simp add: py_slice_def Let_def)
    with strip_length_le [of "py_slice content start ?bp"] le bnd(1) show ?thesis
      unfolding ce by linarith
  next
    case over: True
    note o = find_break_point_over [OF lt over]
    define k where "k = nat (?end - 1)"
    have k: "start < k" "int k = ?end - 1" "k + 2 \<le> length content"
      using o(2) True by (simp_all add: k_def)
    have e1: "nat (?end + 1) = k + 2" "\<not> ?end + 1 < 0" "min (?end + 1) (int (length content)) = ?end + 1"
      using o(2) True by (simp_all add: k_def)
    have "py_slice content k (?end + 1) = take 2 (drop k content)"
      unfolding py_slice_def Let_def by (simp only: e1 if_False) simp
    with o(1) have two: "take 2 (drop k content) = [10, 10]" by (simp add: k_def)
    have "py_slice content start ?bp = take (k + 2 - start) (drop start content)"
      unfolding over py_slice_def Let_def by (simp only: e1 if_False)
    also have "k + 2 - start = (k - start) + 2" using k(1) by simp
    also have "take ((k - start) + 2) (drop start content)
        = take (k - start) (drop start content) @ take 2 (drop (k - start) (drop start content))"
      by (rule take_add)
    also have "drop (k - start) (drop start content) = drop k content" using k(1) by simp
    finally have sl: "py_slice content start ?bp
        = take (k - start) (drop start content) @ [10, 10]" by (simp add: two)
    have sp: "isspace 10" by (simp add: isspace_def)
    have "length (strip (py_slice content start ?bp))
        \<le> length (take (k - start) (drop start content))"
      unfolding sl by (rule strip_two_trailing [OF sp sp])
    also have "\<dots> \<le> k - start" by simp
    finally show ?thesis unfolding ce using k by linarith
  qed
qed

lemma split_ranges_member:
  assumes "(s, e) \<in> set (split_ranges av ov content start)"
  shows "s < length content \<and> e = chunk_end av content s"
  using assms
proof (induction av ov content start rule: split_ranges.induct)
  case (1 av ov content start)
  from "1.prems" have sl: "start < length content"
    by (subst (asm) split_ranges.simps) (auto split: if_splits)
  show ?case
  proof (cases "chunk_end av content start \<ge> int (length content)")
    case True
    with "1.prems" sl show ?thesis
      by (subst (asm) split_ranges.simps) (auto simp: Let_def)
  next
    case False
    with "1.prems" sl have "(s, e) = (start, chunk_end av content start)
        \<or> (s, e) \<in> set (split_ranges av ov content
                          (next_start ov start (chunk_end av content start)))"
      by (subst (asm) split_ranges.simps) (auto simp: Let_def)
    with sl "1.IH" [OF sl refl False] show ?thesis by auto
  qed
qed

lemma split_segment_length:
  assumes "0 < available_chars" "s \<in> set (split_content_with_overlap p content available_chars)"
  shows "int (length s) \<le> available_chars"
proof (cases "int (length content) \<le> available_chars")
  case True
  with assms(2) show ?thesis by (simp add: split_content_with_overlap_def)
next
  case False
  with assms(2) obtain st e where
    "(st, e) \<in> set (split_ranges available_chars (overlap_size p) content 0)"
    "s = strip (py_slice content st e)"
    by (auto simp: split_content_as_ranges segments_of_def)
  with split_ranges_member [OF this(1)] strip_slice_length [OF assms(1), of st content]
  show ?thesis by simp
qed

subsection \<open>The example document\<close>

lemma assemble_chunks_content_sizes:
  "map (\<lambda>c. content_size (metadata c))
     (fst (assemble_chunks isalnum stem p bg bl sf ct fp i segs)) = map length segs"
proof (induction segs arbitrary: p i)
  case Nil
  show ?case by simp
next
  case (Cons seg segs)
  obtain cid p1 where g: "generate_chunk_id isalnum stem p sf ct i = (cid, p1)"
    by (metis surj_pair)
  obtain cs p2 where a: "assemble_chunks isalnum stem p1 bg bl sf ct fp (i + 1) segs = (cs, p2)"
    by (metis surj_pair)
  from Cons.IH [of p1 "i + 1"] g a show ?case by (simp add: Let_def)
qed

lemma create_chunks_content_sizes:
  "map (\<lambda>c. content_size (metadata c))
     (fst (create_chunks_from_entry isalnum stem p e all_entries sf))
   = map length (entry_segments p e all_entries)"
  by (simp add: create_chunks_as_parts assemble_chunks_content_sizes)

lemma example_budget:
  "allocate_budget processor_200
     (lit ''[BACKGROUND]\<newline>[TRUNCATED] '' @ replicate 68 98 @ lit ''\<newline>[/BACKGROUND]'') True
   = (lit ''[BACKGROUND]\<newline>[TRUNCATED] '' @ replicate 68 98 @ lit ''\<newline>[/BACKGROUND]'',
      107, True, 100)"
  by (simp add: processor_200_def background_eval)

lemma example_build:
  "build_hierarchical_background processor_200 entry_B [entry_A, entry_B]
     = ((lit ''[BACKGROUND]\<newline>[TRUNCATED] '' @ replicate 68 98 @ lit ''\<newline>[/BACKGROUND]'', True),
        processor_200\<lparr>hierarchy_cache := [lit ''A'' \<mapsto> replicate 100 98]\<rparr>)"
  by (simp add: processor_200_def entry_A_def entry_B_def background_eval
      dropWhile_replicate)

lemma example_entry_background:
  "entry_background processor_200 entry_B [entry_A, entry_B]
     = lit ''[BACKGROUND]\<newline>[TRUNCATED] '' @ replicate 68 98 @ lit ''\<newline>[/BACKGROUND]''"
proof -
  have "allocate_budget (processor_200\<lparr>hierarchy_cache := [lit ''A'' \<mapsto> replicate 100 98]\<rparr>)
     (lit ''[BACKGROUND]\<newline>[TRUNCATED] '' @ replicate 68 98 @ lit ''\<newline>[/BACKGROUND]'') True
   = (lit ''[BACKGROUND]\<newline>[TRUNCATED] '' @ replicate 68 98 @ lit ''\<newline>[/BACKGROUND]'',
      107, True, 100)"
    by (simp add: processor_200_def background_eval)
  then show ?thesis by (simp add: entry_background_def example_build)
qed

lemma example_available_chars:
  "entry_available_chars processor_200 entry_B [entry_A, entry_B] = 100"
  using entry_available_chars_floor(2) [of processor_200 entry_B "[entry_A, entry_B]"]
  by (simp add: example_entry_background) (simp add: processor_200_def lit_def)

lemma example_ranges:
  "split_ranges 100 0 (replicate 98 97 @ lit ''. '' @ replicate 50 97) 0 = [(0, 99), (99, 199)]"
proof -
  let ?content = "replicate 98 97 @ lit ''. '' @ replicate 50 97"
  have len: "length ?content = 150" by (simp add: lit_def)
  have n99: "?content ! 99 = 32" and n98: "?content ! 98 = 46"
    by (simp_all add: nth_append lit_def)
  have "search_back (sentence_end_at ?content) 99 0 = Some 98"
  proof -
    have "[1..99] = [1..97] @ [98, 99]"
      using upto_split2 [of 1 97 99] by (simp add: upto.simps)
    then have "rev [1..99] = 99 # 98 # rev [1..97]" by simp
    moreover have "\<not> sentence_end_at ?content 99"
      using n99 by (simp add: sentence_end_at_def lit_def)
    moreover have "sentence_end_at ?content 98"
      using n98 n99 len by (simp add: sentence_end_at_def lit_def isspace_def)
    ultimately show ?thesis by (simp add: search_back_def)
  qed
  then have "find_break_point ?content 0 100 = 99"
    by (simp add: find_break_point_def)
  with len have e0: "chunk_end 100 ?content 0 = 99" by (simp add: chunk_end_def)
  from len have e1: "chunk_end 100 ?content 99 = 199" by (simp add: chunk_end_def)
  have n: "next_start 0 0 99 = 99" by (simp add: next_start_def)
  have "split_ranges 100 0 ?content 99 = [(99, 199)]"
    using len e1 by (subst split_ranges.simps) simp
  with len e0 n show ?thesis by (subst split_ranges.simps) simp
qed

lemma example_segments:
  "entry_segments processor_200 entry_B [entry_A, entry_B]
     = [replicate 98 97 @ lit ''.'', replicate 50 97]"
proof -
  let ?content = "replicate 98 97 @ lit ''. '' @ replicate 50 97"
  have ec: "entry_content entry_B = ?content" by (simp add: entry_B_def)
  have ov: "overlap_size (processor_200\<lparr>hierarchy_cache := [lit ''A'' \<mapsto> replicate 100 98]\<rparr>) = 0"
    by (simp add: processor_200_def)
  have s0: "py_slice ?content 0 99 = replicate 98 97 @ lit ''.''"
    by (simp add: py_slice_def lit_def)
  have s1: "py_slice ?content 99 199 = 32 # replicate 50 97"
    by (simp add: py_slice_def lit_def)
  have t0: "strip (replicate 98 97 @ lit ''.'') = replicate 98 97 @ lit ''.''"
    by (simp add: strip_def lit_def isspace_def dropWhile_append dropWhile_replicate)
  have t1: "strip (32 # replicate 50 97) = replicate 50 97"
    by (simp add: strip_def isspace_def dropWhile_replicate)
  have "split_content_with_overlap
          (processor_200\<lparr>hierarchy_cache := [lit ''A'' \<mapsto> replicate 100 98]\<rparr>) ?content 100
        = segments_of ?content (split_ranges 100 0 ?content 0)"
    using split_content_as_ranges [of 100 ?content
        "processor_200\<lparr>hierarchy_cache := [lit ''A'' \<mapsto> replicate 100 98]\<rparr>"] ov
    by (simp add: lit_def)
  also have "\<dots> = [replicate 98 97 @ lit ''.'', replicate 50 97]"
    by (simp add: example_ranges segments_of_def s0 s1 t0 t1)
  finally show ?thesis
    using ec by (simp add: entry_segments_def example_build example_available_chars)
qed

lemma example_chunks_nonempty:
  "fst (create_chunks_from_entry example_isalnum example_stem processor_200 entry_B
          [entry_A, entry_B] (lit ''d1.json'')) \<noteq> []"
proof
  assume "fst (create_chunks_from_entry example_isalnum example_stem processor_200 entry_B
          [entry_A, entry_B] (lit ''d1.json'')) = []"
  with create_chunks_content_sizes [of example_isalnum example_stem processor_200 entry_B
      "[entry_A, entry_B]" "lit ''d1.json''"]
  show False by (simp add: example_segments)
qed

theorem chunk_metadata_consistent_witness:
  "hd (fst (create_chunks_from_entry example_isalnum example_stem processor_200 entry_B
              [entry_A, entry_B] (lit ''d1.json'')))
     \<in> set (fst (create_chunks_from_entry example_isalnum example_stem processor_200 entry_B
                   [entry_A, entry_B] (lit ''d1.json'')))
   \<and> (\<exists>seg \<in> set (entry_segments processor_200 entry_B [entry_A, entry_B]).
         chunk_content (hd (fst (create_chunks_from_entry example_isalnum example_stem
              processor_200 entry_B [entry_A, entry_B] (lit ''d1.json''))))
           = entry_background processor_200 entry_B [entry_A, entry_B]
               @ lit ''\<newline>\<newline>'' @ seg
         \<and> md_chunk_size (metadata (hd (fst (create_chunks_from_entry example_isalnum
              example_stem processor_200 entry_B [entry_A, entry_B] (lit ''d1.json'')))))
           = 107 + 2 + length seg)"
proof -
  let ?cs = "fst (create_chunks_from_entry example_isalnum example_stem processor_200 entry_B
              [entry_A, entry_B] (lit ''d1.json''))"
  have h: "hd ?cs \<in> set ?cs" using example_chunks_nonempty by (rule hd_in_set)
  have b: "entry_background processor_200 entry_B [entry_A, entry_B] \<noteq> []"
    "length (entry_background processor_200 entry_B [entry_A, entry_B]) = 107"
    by (simp_all add: example_entry_background lit_def)
  from chunk_metadata_consistent [OF h] b h show ?thesis by auto
qed

section \<open>The content floor\<close>

text \<open>
  C3 (as the code has it): the floor of 100 characters bounds \<open>available_chars\<close>, the
  width given to the splitter, from below; every chunk's content segment is at most
  \<open>available_chars = max(chunk_size - background_size, 100)\<close> characters long. A
  segment can be shorter than 100 characters, whatever the length of the entry's content.
\<close>

theorem content_size_bounded:
  assumes "c \<in> set (fst (create_chunks_from_entry isalnum stem p e all_entries sf))"
  shows "int (content_size (metadata c)) \<le> entry_available_chars p e all_entries
         \<and> 100 \<le> entry_available_chars p e all_entries
         \<and> entry_available_chars p e all_entries
             = max (chunk_size p - int (background_size (metadata c))) 100"
proof -
  from assms obtain seg where seg: "seg \<in> set (entry_segments p e all_entries)"
    "background_size (metadata c) = length (entry_background p e all_entries)"
    "content_size (metadata c) = length seg"
    unfolding create_chunks_as_parts by (blast dest: assemble_chunks_member)
  note fl = entry_available_chars_floor [of p e all_entries]
  obtain bg wt p1 where b: "build_hierarchical_background p e all_entries = ((bg, wt), p1)"
    by (metis surj_pair)
  from seg(1) b have "seg \<in> set (split_content_with_overlap p1 (entry_content e)
                                   (entry_available_chars p e all_entries))"
    by (simp add: entry_segments_def)
  with fl(1) have "int (length seg) \<le> entry_available_chars p e all_entries"
    by (intro split_segment_length [of _ _ p1 "entry_content e"]) simp_all
  with seg fl show ?thesis by simp
qed

theorem content_size_bounded_witness:
  "hd (fst (create_chunks_from_entry example_isalnum example_stem processor_200 entry_B
              [entry_A, entry_B] (lit ''d1.json'')))
     \<in> set (fst (create_chunks_from_entry example_isalnum example_stem processor_200 entry_B
                   [entry_A, entry_B] (lit ''d1.json'')))
   \<and> int (content_size (metadata (hd (fst (create_chunks_from_entry example_isalnum
          example_stem processor_200 entry_B [entry_A, entry_B] (lit ''d1.json''))))))
       \<le> 100
   \<and> entry_available_chars processor_200 entry_B [entry_A, entry_B] = 100"
proof -
  let ?cs = "fst (create_chunks_from_entry example_isalnum example_stem processor_200 entry_B
              [entry_A, entry_B] (lit ''d1.json''))"
  have h: "hd ?cs \<in> set ?cs" using example_chunks_nonempty by (rule hd_in_set)
  from content_size_bounded [OF h] h show ?thesis
    by (simp add: example_available_chars)
qed

text \<open>
  C3 as stated fails: the entry \<open>B\<close> has 150 characters of content; its two chunks have
  content segments of 99 and 50 characters.
\<close>

theorem content_floor_counterexample:
  "length (entry_content entry_B) = 150
   \<and> map (content_size \<circ> metadata)
        (fst (create_chunks_from_entry example_isalnum example_stem processor_200 entry_B
                [entry_A, entry_B] (lit ''d1.json''))) = [99, 50]"
proof -
  have "length (entry_content entry_B) = 150" by (simp add: entry_B_def lit_def)
  moreover have "map length (entry_segments processor_200 entry_B [entry_A, entry_B]) = [99, 50]"
    by (simp add: example_segments lit_def)
  ultimately show ?thesis
    using create_chunks_content_sizes [of example_isalnum example_stem processor_200 entry_B
        "[entry_A, entry_B]" "lit ''d1.json''"]
    by (simp add: comp_def)
qed

section \<open>The reduction of the background\<close>

lemma contains_length: "contains sub s \<Longrightarrow> length sub \<le> length s"
proof (induction s)
  case Nil
  then show ?case by simp
next
  case (Cons c s)
  from Cons.prems have "take (length sub) (c # s) = sub \<or> contains sub s" by simp
  then show ?case
  proof
    assume "take (length sub) (c # s) = sub"
    then have "length (take (length sub) (c # s)) = length sub" by simp
    then show ?thesis by (simp only: length_take)
  next
    assume "contains sub s"
    with Cons.IH show ?thesis by simp
  qed
qed

lemma reduce_background_too_long:
  assumes "background = lit ''[BACKGROUND]\<newline>'' @ raw @ lit ''\<newline>[/BACKGROUND]''"
    and "max_allowed_background < int (length background)"
  shows "reduce_background max_allowed_background background = []
         \<or> max_allowed_background
             < int (length (reduce_background max_allowed_background background))"
proof -
  have sw: "startswith background (lit ''[BACKGROUND]\<newline>'')"
    and ew: "endswith background (lit ''\<newline>[/BACKGROUND]'')"
    unfolding assms(1) by (simp_all add: startswith_def endswith_def lit_def)
  have inner: "py_slice background 13 (- 14) = raw"
    unfolding assms(1) by (simp add: py_slice_def lit_def)
  have len: "int (length background) = 27 + int (length raw)"
    unfolding assms(1) by (simp add: lit_def)
  show ?thesis
  proof (cases "contains (lit ''[TRUNCATED] '') raw")
    case True
    from contains_length [OF True] have l12: "12 \<le> length raw" by (simp add: lit_def)
    show ?thesis
    proof (cases "0 < max_allowed_background - 30")
      case False
      with True sw ew inner assms(2) show ?thesis
        by (simp add: reduce_background_def Let_def)
    next
      case pos: True
      with True sw ew inner
      have r: "reduce_background max_allowed_background background
          = lit ''[BACKGROUND]\<newline>[TRUNCATED] ''
              @ py_from (drop 12 raw) (- (max_allowed_background - 30))
              @ lit ''\<newline>[/BACKGROUND]''"
        by (simp add: reduce_background_def Let_def)
      have "int (length (py_from (drop 12 raw) (- (max_allowed_background - 30))))
          = min (max_allowed_background - 30) (int (length raw) - 12)"
        using pos l12 by (auto simp: py_from_def)
      with len assms(2) l12 show ?thesis unfolding r by (simp add: lit_def)
    qed
  next
    case False
    show ?thesis
    proof (cases "0 < max_allowed_background - 28")
      case nonpos: False
      with False sw ew inner show ?thesis
        by (simp add: reduce_background_def Let_def)
    next
      case pos: True
      with False sw ew inner
      have r: "reduce_background max_allowed_background background
          = lit ''[BACKGROUND]\<newline>[TRUNCATED] ''
              @ py_from raw (- (max_allowed_background - 28))
              @ lit ''\<newline>[/BACKGROUND]''"
        by (simp add: reduce_background_def Let_def)
      have "int (length (py_from raw (- (max_allowed_background - 28))))
          = min (max_allowed_background - 28) (int (length raw))"
        using pos by (auto simp: py_from_def)
      with len assms(2) show ?thesis unfolding r by (simp add: lit_def)
    qed
  qed
qed

lemma allocate_budget_reduced:
  assumes "chunk_size p - int (length background) < 100" "background \<noteq> []"
    and "100 < chunk_size p"
  shows "allocate_budget p background was_truncated
    = (reduce_background (chunk_size p - 100) background,
       length (reduce_background (chunk_size p - 100) background), True,
       max (chunk_size p - int (length (reduce_background (chunk_size p - 100) background))) 100)"
  using assms by (simp add: allocate_budget_def Let_def)

text \<open>
  Whenever the reduction runs on a background of \<open>build_hierarchical_background\<close> (a
  text between the labels), the reduced background is either dropped or still longer
  than \<open>chunk_size - 100\<close>: \<open>chunk_size - len(background)\<close> is never 100 afterwards.
\<close>

lemma reduction_never_restores:
  assumes "background = lit ''[BACKGROUND]\<newline>'' @ raw @ lit ''\<newline>[/BACKGROUND]''"
    and "chunk_size p - int (length background) < 100" and "100 < chunk_size p"
    and "allocate_budget p background was_truncated = (background', bl, wt', av)"
  shows "chunk_size p - int (length background') \<noteq> 100" and "100 \<le> av"
proof -
  have ne: "background \<noteq> []" unfolding assms(1) by (simp add: lit_def)
  from allocate_budget_reduced [OF assms(2) ne assms(3), of was_truncated] assms(4)
  have b: "background' = reduce_background (chunk_size p - 100) background"
    and av: "av = max (chunk_size p - int (length background')) 100"
    by simp_all
  from assms(2) have "chunk_size p - 100 < int (length background)" by simp
  from reduce_background_too_long [OF assms(1) this] assms(3)
  show "chunk_size p - int (length background') \<noteq> 100" unfolding b by auto
  show "100 \<le> av" unfolding av by simp
qed

text \<open>
  C2, at the document of the examples: the background of \<open>B\<close> has 107 characters and
  leaves \<open>200 - 107 = 93 < 100\<close>; \<open>chunk_size - 100 = 100\<close> leaves room for the labels
  and the marker (39 characters) and 61 more. The reduction keeps all 107 characters
  (it cuts the inner text to \<open>100 - 30 = 70\<close> characters, and there are 68), so that
  \<open>chunk_size - len(background)\<close> is still 93 and not 100; \<open>available_chars\<close> is then
  raised to 100.
\<close>

theorem background_reduction_example:
  "fst (fst (build_hierarchical_background processor_200 entry_B [entry_A, entry_B]))
     = lit ''[BACKGROUND]\<newline>[TRUNCATED] '' @ replicate 68 98 @ lit ''\<newline>[/BACKGROUND]''
   \<and> entry_background processor_200 entry_B [entry_A, entry_B]
     = lit ''[BACKGROUND]\<newline>[TRUNCATED] '' @ replicate 68 98 @ lit ''\<newline>[/BACKGROUND]''
   \<and> chunk_size processor_200
       - int (length (entry_background processor_200 entry_B [entry_A, entry_B])) = 93
   \<and> entry_available_chars processor_200 entry_B [entry_A, entry_B] = 100"
  by (simp add: example_build example_entry_background example_available_chars)
     (simp add: processor_200_def lit_def)

end
